theory Spec2Isabelle
  imports Main "HOL-Library.Multiset"
begin

section \<open>Python strings\<close>

text \<open>
  A Python \<open>str\<close> is a list of code points. The model uses \<^typ>\<open>string\<close>, so it
  covers the code points below 256; a \<^typ>\<open>char\<close> is one code point, not a byte of
  an encoding.
\<close>

text \<open>\<open>str.isspace\<close> on one character, for the code points below 256.\<close>

definition py_isspace :: "char \<Rightarrow> bool" where
  "py_isspace c = (c \<in> set [CHR 0x09, CHR 0x0A, CHR 0x0B, CHR 0x0C, CHR 0x0D,
                             CHR 0x1C, CHR 0x1D, CHR 0x1E, CHR 0x1F, CHR '' '',
                             CHR 0x85, CHR 0xA0])"

text \<open>\<open>s.strip()\<close>: whitespace removed at both ends.\<close>

definition py_strip :: "string \<Rightarrow> string" where
  "py_strip s = rev (dropWhile py_isspace (rev (dropWhile py_isspace s)))"

text \<open>\<open>s.split(sep)\<close> for a separator of one character; the result is never empty.\<close>

fun py_split :: "char \<Rightarrow> string \<Rightarrow> string list" where
  "py_split sep [] = [[]]"
| "py_split sep (c # cs) =
     (if c = sep then [] # py_split sep cs
      else (case py_split sep cs of
              [] \<Rightarrow> [[c]]
            | w # ws \<Rightarrow> (c # w) # ws))"

text \<open>\<open>s.startswith(p)\<close> and \<open>s.endswith(p)\<close>.\<close>

definition py_startswith :: "string \<Rightarrow> string \<Rightarrow> bool" where
  "py_startswith s p = (take (length p) s = p)"

definition py_endswith :: "string \<Rightarrow> string \<Rightarrow> bool" where
  "py_endswith s p = (length p \<le> length s \<and> drop (length s - length p) s = p)"

text \<open>\<open>sep.join(parts)\<close> for a separator of one character.\<close>

fun py_join :: "char \<Rightarrow> string list \<Rightarrow> string" where
  "py_join sep [] = []"
| "py_join sep [x] = x"
| "py_join sep (x # y # zs) = x @ sep # py_join sep (y # zs)"

text \<open>
  \<open>str.lower\<close> on one character, for the code points below 256: the letters A to Z and
  the capital letters of Latin-1 (0xC0 to 0xDE without the multiplication sign 0xD7).
\<close>

definition upper_chars :: string where
  "upper_chars = ''ABCDEFGHIJKLMNOPQRSTUVWXYZ'' @
     [CHR 0xC0, CHR 0xC1, CHR 0xC2, CHR 0xC3, CHR 0xC4, CHR 0xC5, CHR 0xC6, CHR 0xC7,
      CHR 0xC8, CHR 0xC9, CHR 0xCA, CHR 0xCB, CHR 0xCC, CHR 0xCD, CHR 0xCE, CHR 0xCF,
      CHR 0xD0, CHR 0xD1, CHR 0xD2, CHR 0xD3, CHR 0xD4, CHR 0xD5, CHR 0xD6,
      CHR 0xD8, CHR 0xD9, CHR 0xDA, CHR 0xDB, CHR 0xDC, CHR 0xDD, CHR 0xDE]"

definition lower_chars :: string where
  "lower_chars = ''abcdefghijklmnopqrstuvwxyz'' @
     [CHR 0xE0, CHR 0xE1, CHR 0xE2, CHR 0xE3, CHR 0xE4, CHR 0xE5, CHR 0xE6, CHR 0xE7,
      CHR 0xE8, CHR 0xE9, CHR 0xEA, CHR 0xEB, CHR 0xEC, CHR 0xED, CHR 0xEE, CHR 0xEF,
      CHR 0xF0, CHR 0xF1, CHR 0xF2, CHR 0xF3, CHR 0xF4, CHR 0xF5, CHR 0xF6,
      CHR 0xF8, CHR 0xF9, CHR 0xFA, CHR 0xFB, CHR 0xFC, CHR 0xFD, CHR 0xFE]"

definition lower_char :: "char \<Rightarrow> char" where
  "lower_char c = (case map_of (zip upper_chars lower_chars) c of Some l \<Rightarrow> l | None \<Rightarrow> c)"

definition py_lower :: "string \<Rightarrow> string" where
  "py_lower s = map lower_char s"

text \<open>\<open>str(n)\<close> for a natural number and for an integer: decimal digits.\<close>

fun string_of_nat :: "nat \<Rightarrow> string" where
  "string_of_nat n =
     (if n < 10 then [''0123456789'' ! n]
      else string_of_nat (n div 10) @ [''0123456789'' ! (n mod 10)])"

declare string_of_nat.simps [simp del]

definition string_of_int :: "int \<Rightarrow> string" where
  "string_of_int i = (if i < 0 then CHR ''-'' # string_of_nat (nat (- i)) else string_of_nat (nat i))"

section \<open>main.py: sanitize\_commit\_messages\<close>

text \<open>The argument of \<open>sanitize_commit_messages\<close>: a string or a list of strings.\<close>

datatype messages = MsgStr string | MsgList "string list"

definition error_prefix :: string where
  "error_prefix = ''Error generating commit message:''"

text \<open>
  The \<open>for msg in messages\<close> loop; the second argument is \<open>valid_messages\<close>.
  Each equation of the \<open>if\<close> chain is one \<open>continue\<close> or the \<open>append\<close> of the source.
\<close>

fun sanitize_loop :: "string list \<Rightarrow> string list \<Rightarrow> string list" where
  "sanitize_loop [] valid_messages = valid_messages"
| "sanitize_loop (msg # rest) valid_messages =
     (if msg = [] then sanitize_loop rest valid_messages
      else (let m = py_strip msg in
            if py_startswith m error_prefix then sanitize_loop rest valid_messages
            else if m \<noteq> [] \<and> py_strip m \<noteq> [] then sanitize_loop rest (valid_messages @ [m])
            else sanitize_loop rest valid_messages))"

definition sanitize_commit_messages :: "messages \<Rightarrow> string list" where
  "sanitize_commit_messages messages =
     (case messages of
        MsgStr s \<Rightarrow>
          (if s = [] \<or> py_strip s = [] then []
           else sanitize_loop (py_split CHR ''|'' s) [])
      | MsgList ms \<Rightarrow> sanitize_loop ms [])"

text \<open>
  The candidate filter as the specification words it: the candidates of a string are its
  pieces between \<open>|\<close>, the candidates of a list are its elements; every candidate is
  trimmed, the empty ones are dropped, then the ones that begin with the error prefix.
\<close>

definition candidates :: "messages \<Rightarrow> string list" where
  "candidates messages =
     (case messages of MsgStr s \<Rightarrow> py_split CHR ''|'' s | MsgList ms \<Rightarrow> ms)"

definition sanitize_spec :: "messages \<Rightarrow> string list" where
  "sanitize_spec messages =
     filter (\<lambda>c. \<not> py_startswith c error_prefix)
       (filter (\<lambda>c. c \<noteq> []) (map py_strip (candidates messages)))"

section \<open>os.path (posixpath)\<close>

definition os_sep :: char where
  "os_sep = CHR ''/''"

text \<open>\<open>p.rfind(c)\<close>: the index of the last occurrence of a character, \<open>-1\<close> without one.\<close>

definition rfind :: "string \<Rightarrow> char \<Rightarrow> int" where
  "rfind p c =
     (if c \<in> set p then int (length p) - 1 - int (length (takeWhile (\<lambda>x. x \<noteq> c) (rev p)))
      else - 1)"

text \<open>\<open>os.path.basename(p)\<close>: \<open>p[p.rfind(sep) + 1:]\<close>.\<close>

definition basename :: "string \<Rightarrow> string" where
  "basename p = drop (nat (rfind p os_sep + 1)) p"

text \<open>
  \<open>os.path.splitext(p)[0]\<close>: the path up to its last dot, when that dot comes after the
  last separator and some character between them is not a dot (the \<open>while\<close> loop of
  \<open>genericpath._splitext\<close> that skips leading dots); the whole path otherwise.
\<close>

definition splitext_root :: "string \<Rightarrow> string" where
  "splitext_root p =
     (let sepIndex = rfind p os_sep;
          dotIndex = rfind p CHR ''.'';
          name_before_dot = drop (nat (sepIndex + 1)) (take (nat dotIndex) p)
      in if dotIndex > sepIndex \<and> filter (\<lambda>c. c \<noteq> CHR ''.'') name_before_dot \<noteq> []
         then take (nat dotIndex) p
         else p)"

text \<open>
  \<open>os.path.normpath(path)\<close>, as \<open>posixpath\<close> defines it. \<open>normpath_comps\<close> is the loop
  over the components, the last argument is \<open>new_comps\<close>.
\<close>

fun normpath_comps :: "bool \<Rightarrow> string list \<Rightarrow> string list \<Rightarrow> string list" where
  "normpath_comps initial_slashes [] new_comps = new_comps"
| "normpath_comps initial_slashes (component # rest) new_comps =
     (if component = [] \<or> component = ''.'' then normpath_comps initial_slashes rest new_comps
      else if component \<noteq> ''..'' \<or> (\<not> initial_slashes \<and> new_comps = []) \<or>
              (new_comps \<noteq> [] \<and> last new_comps = ''..'')
      then normpath_comps initial_slashes rest (new_comps @ [component])
      else if new_comps \<noteq> [] then normpath_comps initial_slashes rest (butlast new_comps)
      else normpath_comps initial_slashes rest new_comps)"

definition normpath :: "string \<Rightarrow> string" where
  "normpath path =
     (if path = [] then ''.''
      else
        (let initial_slashes =
               (if py_startswith path ''/''
                then (if py_startswith path ''//'' \<and> \<not> py_startswith path ''///''
                      then 2 else 1)
                else (0::nat));
             comps = normpath_comps (initial_slashes \<noteq> 0) (py_split os_sep path) [];
             joined = replicate initial_slashes os_sep @ py_join os_sep comps
         in if joined = [] then ''.'' else joined))"

section \<open>utils/git.py: group\_files\_by\_directory\<close>

text \<open>
  A dictionary whose values are lists, in insertion order: \<open>d[k].append(v)\<close>, where a
  missing key starts from the empty list (\<open>defaultdict(list)\<close>, or the explicit
  \<open>if k not in d: d[k] = []\<close>).
\<close>

fun dict_append :: "'k \<Rightarrow> 'v \<Rightarrow> ('k \<times> 'v list) list \<Rightarrow> ('k \<times> 'v list) list" where
  "dict_append k v [] = [(k, [v])]"
| "dict_append k v ((k', vs) # rest) =
     (if k = k' then (k', vs @ [v]) # rest else (k', vs) # dict_append k v rest)"

text \<open>The key of a file: the first part of its path, \<open>root\<close> when the path has one part.\<close>

definition root_dir_of :: "string \<Rightarrow> string" where
  "root_dir_of file_path =
     (let parts = py_split os_sep file_path
      in if length parts > 1 then hd parts else ''root'')"

fun group_files_loop :: "string list \<Rightarrow> (string \<times> string list) list \<Rightarrow> (string \<times> string list) list" where
  "group_files_loop [] grouped = grouped"
| "group_files_loop (file_path # rest) grouped =
     group_files_loop rest (dict_append (root_dir_of file_path) file_path grouped)"

definition group_files_by_directory :: "string list \<Rightarrow> (string \<times> string list) list" where
  "group_files_by_directory files_in = group_files_loop files_in []"

section \<open>utils/git.py: generate\_relation\_grouping\_prompt\<close>

definition truncation_marker :: string where
  "truncation_marker = CHR 0x0A # ''... [truncated]''"

text \<open>\<open>diff[:3000] + "\n... [truncated]" if len(diff) > 3000 else diff\<close>\<close>

definition truncated_diff :: "string \<Rightarrow> string" where
  "truncated_diff diff = (if length diff > 3000 then take 3000 diff @ truncation_marker else diff)"

text \<open>The lines one item of \<open>diffs\<close> adds to \<open>prompt_parts\<close>.\<close>

definition diff_entry :: "string \<times> string \<Rightarrow> string list" where
  "diff_entry e =
     (case e of (file_path, diff) \<Rightarrow>
        [''### FILE: '' @ file_path, ''```diff'', truncated_diff diff, ''```'', ''''])"

text \<open>
  The prompt. The instructions before the file list and the output requirements after the
  diffs are fixed text (with the number of files and two configuration values filled in);
  they are the parameters \<open>instructions\<close> and \<open>requirements\<close>. \<open>diffs\<close> is the
  dictionary's items in order.
\<close>

definition generate_relation_grouping_prompt ::
  "string list \<Rightarrow> string list \<Rightarrow> string list \<Rightarrow> (string \<times> string) list \<Rightarrow> string" where
  "generate_relation_grouping_prompt instructions requirements files_in diffs =
     py_join (CHR 0x0A)
       (instructions @
        map (\<lambda>file_path. ''  - '' @ file_path) files_in @
        ['''', replicate 60 CHR ''='', ''FILE DIFFS (analyze content for relationships):'',
         replicate 60 CHR ''='', ''''] @
        concat (map diff_entry diffs) @
        requirements)"

section \<open>JSON values and the grouping result\<close>

text \<open>
  What \<open>json.loads\<close> returns: \<open>None\<close>, a bool, an int, a str, a list or a dict with
  string keys (its items in order, every key once). Numbers with a fraction or an
  exponent (Python floats) are not part of the model.
\<close>

datatype json =
    JNull
  | JBool bool
  | JInt int
  | JStr string
  | JArr "json list"
  | JObj "(string \<times> json) list"

text \<open>The emoji constants of the source, by name.\<close>

datatype emoji = Sparkles | Bug | Recycle | Gear | Memo | TestTube | Wrench | Package | Folder

text \<open>
  One value of the result dictionary, with its keys \<open>files\<close>, \<open>description\<close>,
  \<open>type\<close>, \<open>emoji\<close> and \<open>commit_messages\<close>. Description, type and commit messages
  of a parsed group are whatever JSON values the response holds.
\<close>

record group =
  group_files :: "string list"
  group_description :: json
  group_type :: json
  group_emoji :: emoji
  group_commit_messages :: json

text \<open>The result dictionary, in insertion order; a key is any hashable value.\<close>

type_synonym groups = "(json \<times> group) list"

datatype py_error = JSONDecodeError | KeyError | TypeError | AttributeError

text \<open>Truth value of a JSON value (\<open>not v\<close> is its negation).\<close>

fun truthy :: "json \<Rightarrow> bool" where
  "truthy JNull = False"
| "truthy (JBool b) = b"
| "truthy (JInt i) = (i \<noteq> 0)"
| "truthy (JStr s) = (s \<noteq> [])"
| "truthy (JArr xs) = (xs \<noteq> [])"
| "truthy (JObj kvs) = (kvs \<noteq> [])"

text \<open>Lists and dicts cannot be hashed: using one as a dictionary key raises TypeError.\<close>

fun hashable :: "json \<Rightarrow> bool" where
  "hashable (JArr xs) = False"
| "hashable (JObj kvs) = False"
| "hashable v = True"

text \<open>\<open>==\<close> on hashable values, as dictionary lookup uses it: \<open>True == 1\<close>, \<open>False == 0\<close>.\<close>

fun py_key_eq :: "json \<Rightarrow> json \<Rightarrow> bool" where
  "py_key_eq JNull JNull = True"
| "py_key_eq (JBool a) (JBool b) = (a = b)"
| "py_key_eq (JBool a) (JInt i) = (i = (if a then 1 else 0))"
| "py_key_eq (JInt i) (JBool a) = (i = (if a then 1 else 0))"
| "py_key_eq (JInt i) (JInt j) = (i = j)"
| "py_key_eq (JStr s) (JStr t) = (s = t)"
| "py_key_eq v w = False"

text \<open>\<open>str(v)\<close>, as an f-string formats a hashable value.\<close>

fun py_str :: "json \<Rightarrow> string" where
  "py_str JNull = ''None''"
| "py_str (JBool b) = (if b then ''True'' else ''False'')"
| "py_str (JInt i) = string_of_int i"
| "py_str (JStr s) = s"
| "py_str v = []"

text \<open>
  \<open>for x in v\<close>: the elements of a list, the keys of a dict, the characters of a string;
  TypeError for a value that is not iterable.
\<close>

fun py_iter :: "json \<Rightarrow> py_error + json list" where
  "py_iter (JArr xs) = Inr xs"
| "py_iter (JObj kvs) = Inr (map (\<lambda>kv. JStr (fst kv)) kvs)"
| "py_iter (JStr s) = Inr (map (\<lambda>c. JStr [c]) s)"
| "py_iter v = Inl TypeError"

text \<open>\<open>d.get(key, default)\<close> on a decoded JSON object.\<close>

definition dict_get :: "(string \<times> json) list \<Rightarrow> string \<Rightarrow> json \<Rightarrow> json" where
  "dict_get d key dflt = (case map_of d key of Some v \<Rightarrow> v | None \<Rightarrow> dflt)"

text \<open>\<open>key in result\<close> and \<open>result[key] = value\<close> on the result dictionary.\<close>

definition dict_contains :: "json \<Rightarrow> groups \<Rightarrow> bool" where
  "dict_contains k d = list_ex (\<lambda>kv. py_key_eq k (fst kv)) d"

fun dict_set :: "json \<Rightarrow> group \<Rightarrow> groups \<Rightarrow> groups" where
  "dict_set k v [] = [(k, v)]"
| "dict_set k v ((k', v') # rest) =
     (if py_key_eq k k' then (k', v) # rest else (k', v') # dict_set k v rest)"

text \<open>\<open>list(dict.fromkeys(xs))\<close>: duplicates removed, first occurrences kept in order.\<close>

fun py_unique :: "'a list \<Rightarrow> 'a list" where
  "py_unique [] = []"
| "py_unique (x # xs) = x # filter (\<lambda>y. y \<noteq> x) (py_unique xs)"

section \<open>utils/git.py: \_fallback\_intelligent\_grouping\<close>

text \<open>
  Case-insensitive match of a piece of text against a literal of a pattern compiled with
  \<open>re.IGNORECASE\<close>: for code points below 256 two characters match when their lower
  cases are equal.
\<close>

definition match_ci :: "string \<Rightarrow> string \<Rightarrow> bool" where
  "match_ci lit s = (map lower_char s = map lower_char lit)"

text \<open>\<open>re.sub(r'^(test_|spec_)', '', base_name, flags=re.IGNORECASE)\<close>\<close>

definition strip_role_prefix :: "string \<Rightarrow> string" where
  "strip_role_prefix s =
     (if match_ci ''test_'' (take 5 s) \<or> match_ci ''spec_'' (take 5 s) then drop 5 s else s)"

text \<open>
  \<open>re.sub(r'(a1|a2|...)$', '', s)\<close>: \<open>$\<close> matches at the end of the string and before
  a newline that ends it, so the match ends where \<open>body\<close> ends. No alternative of the
  two patterns below is a suffix of another, so at most one alternative matches there and
  the order of the alternatives does not matter; what follows the match is at most the
  final newline, so there is no second match.
\<close>

definition sub_suffix :: "(string \<Rightarrow> string \<Rightarrow> bool) \<Rightarrow> string list \<Rightarrow> string \<Rightarrow> string" where
  "sub_suffix matches alternatives s =
     (let ends_nl = (s \<noteq> [] \<and> last s = CHR 0x0A);
          body = (if ends_nl then butlast s else s);
          nl = (if ends_nl then [CHR 0x0A] else [])
      in case find (\<lambda>a. length a \<le> length body \<and>
                        matches a (drop (length body - length a) body)) alternatives of
           None \<Rightarrow> s
         | Some a \<Rightarrow> take (length body - length a) body @ nl)"

definition role_suffixes :: "string list" where
  "role_suffixes = [''_test'', ''_spec'', ''_controller'', ''_service'', ''_model'', ''_schema'',
                    ''_migration'', ''_api'', ''_route'', ''_handler'']"

definition camel_suffixes :: "string list" where
  "camel_suffixes = [''Controller'', ''Service'', ''Model'', ''Schema'', ''Migration'', ''Api'',
                     ''Route'', ''Handler'', ''Test'', ''Spec'']"

text \<open>\<open>cleaned_name\<close> of a file path, after the three substitutions and \<open>lower()\<close>.\<close>

definition entity_key :: "string \<Rightarrow> string" where
  "entity_key file_path =
     (let base_name = splitext_root (basename file_path);
          cleaned_name = strip_role_prefix base_name;
          cleaned_name = sub_suffix match_ci role_suffixes cleaned_name;
          cleaned_name = sub_suffix (\<lambda>a t. t = a) camel_suffixes cleaned_name
      in py_lower cleaned_name)"

text \<open>The first loop: \<open>entity_patterns\<close>, filled for the names longer than one character.\<close>

fun entity_patterns_loop ::
  "string list \<Rightarrow> (string \<times> string list) list \<Rightarrow> (string \<times> string list) list" where
  "entity_patterns_loop [] entity_patterns = entity_patterns"
| "entity_patterns_loop (file_path # rest) entity_patterns =
     (let cleaned_name = entity_key file_path
      in if cleaned_name \<noteq> [] \<and> length cleaned_name > 1
         then entity_patterns_loop rest (dict_append cleaned_name file_path entity_patterns)
         else entity_patterns_loop rest entity_patterns)"

text \<open>The dictionary literals of the function.\<close>

definition related_group :: "string \<Rightarrow> string list \<Rightarrow> group" where
  "related_group entity entity_files =
     \<lparr>group_files = entity_files, group_description = JStr (''Changes related to '' @ entity),
      group_type = JStr ''feature'', group_emoji = Package, group_commit_messages = JArr []\<rparr>"

definition directory_group :: "string \<Rightarrow> string list \<Rightarrow> group" where
  "directory_group dir_name dir_files =
     \<lparr>group_files = dir_files, group_description = JStr (''Changes in '' @ dir_name @ '' directory''),
      group_type = JStr ''chore'', group_emoji = Folder, group_commit_messages = JArr []\<rparr>"

definition all_changes_group :: "string list \<Rightarrow> group" where
  "all_changes_group fs =
     \<lparr>group_files = fs, group_description = JStr ''All staged changes'',
      group_type = JStr ''chore'', group_emoji = Package, group_commit_messages = JArr []\<rparr>"

text \<open>The second loop, over \<open>entity_patterns.items()\<close>; the state is \<open>(groups, grouped_files)\<close>.\<close>

fun entity_groups_loop ::
  "(string \<times> string list) list \<Rightarrow> groups \<times> string set \<Rightarrow> groups \<times> string set" where
  "entity_groups_loop [] st = st"
| "entity_groups_loop ((entity, entity_files) # rest) (groups, grouped_files) =
     (if length entity_files > 1
      then entity_groups_loop rest
             (dict_set (JStr (entity @ ''-related'')) (related_group entity entity_files) groups,
              grouped_files \<union> set entity_files)
      else entity_groups_loop rest (groups, grouped_files))"

text \<open>The third loop, over \<open>dir_groups.items()\<close>.\<close>

fun dir_groups_loop :: "(string \<times> string list) list \<Rightarrow> groups \<Rightarrow> groups" where
  "dir_groups_loop [] groups = groups"
| "dir_groups_loop ((dir_name, dir_files) # rest) groups =
     dir_groups_loop rest
       (dict_set (JStr (dir_name @ ''-changes'')) (directory_group dir_name dir_files) groups)"

definition fallback_intelligent_grouping :: "string list \<Rightarrow> groups" where
  "fallback_intelligent_grouping files_in =
     (let entity_patterns = entity_patterns_loop files_in [];
          (groups, grouped_files) = entity_groups_loop entity_patterns ([], {});
          ungrouped = filter (\<lambda>f. f \<notin> grouped_files) files_in;
          groups = (if ungrouped \<noteq> []
                    then dir_groups_loop (group_files_by_directory ungrouped) groups
                    else groups)
      in if groups \<noteq> [] then groups
         else [(JStr ''all-changes'', all_changes_group files_in)])"

section \<open>utils/git.py: parse\_relation\_groups\<close>

text \<open>
  \<open>\w\<close> of a \<open>str\<close> pattern, for the code points below 256: letters, digits, the
  underscore, and the Latin-1 characters that \<open>str.isalnum\<close> accepts.
\<close>

definition re_word_char :: "char \<Rightarrow> bool" where
  "re_word_char c =
     (let n = (of_char c :: nat) in
      (48 \<le> n \<and> n \<le> 57) \<or> (65 \<le> n \<and> n \<le> 90) \<or> n = 95 \<or> (97 \<le> n \<and> n \<le> 122) \<or>
      n = 170 \<or> n = 178 \<or> n = 179 \<or> n = 181 \<or> n = 185 \<or> n = 186 \<or>
      n = 188 \<or> n = 189 \<or> n = 190 \<or>
      (192 \<le> n \<and> n \<le> 214) \<or> (216 \<le> n \<and> n \<le> 246) \<or> (248 \<le> n \<and> n \<le> 255))"

text \<open>\<open>re.sub(r'^```[\w]*\n?', '', cleaned)\<close>: an opening fence at the start.\<close>

definition strip_fence_open :: "string \<Rightarrow> string" where
  "strip_fence_open s =
     (if py_startswith s ''```''
      then (let r = dropWhile re_word_char (drop 3 s)
            in if r \<noteq> [] \<and> hd r = CHR 0x0A then tl r else r)
      else s)"

text \<open>
  \<open>re.sub(r'\n?```$', '', cleaned)\<close>: a closing fence where \<open>$\<close> matches (the end, or
  before a newline that ends the string), with the newline before the fence when there
  is one.
\<close>

definition strip_fence_close :: "string \<Rightarrow> string" where
  "strip_fence_close s =
     (let ends_nl = (s \<noteq> [] \<and> last s = CHR 0x0A);
          body = (if ends_nl then butlast s else s);
          nl = (if ends_nl then [CHR 0x0A] else [])
      in if py_endswith body ''```''
         then (let r = take (length body - 3) body
               in (if r \<noteq> [] \<and> last r = CHR 0x0A then butlast r else r) @ nl)
         else s)"

text \<open>
  \<open>re.search(r'\[[\s\S]*\]', cleaned)\<close>: from the first \<open>[\<close> to the last \<open>]\<close> after
  it; the text is unchanged without such a pair.
\<close>

definition extract_array :: "string \<Rightarrow> string" where
  "extract_array s =
     (let from_bracket = dropWhile (\<lambda>c. c \<noteq> CHR ''['') s
      in if from_bracket \<noteq> [] \<and> CHR '']'' \<in> set (tl from_bracket)
         then rev (dropWhile (\<lambda>c. c \<noteq> CHR '']'') (rev from_bracket))
         else s)"

text \<open>The text handed to \<open>json.loads\<close>.\<close>

definition clean_response :: "string \<Rightarrow> string" where
  "clean_response ai_response =
     extract_array (py_strip (strip_fence_close (strip_fence_open (py_strip ai_response))))"

definition type_emoji :: "(string \<times> emoji) list" where
  "type_emoji = [(''feature'', Sparkles), (''bugfix'', Bug), (''refactor'', Recycle),
                 (''config'', Gear), (''docs'', Memo), (''test'', TestTube), (''chore'', Wrench)]"

text \<open>\<open>type_emoji.get(change_type, package)\<close>: the lookup hashes its key.\<close>

definition emoji_for :: "json \<Rightarrow> py_error + emoji" where
  "emoji_for change_type =
     (if \<not> hashable change_type then Inl TypeError
      else Inr (case change_type of
                  JStr s \<Rightarrow> (case map_of type_emoji s of Some e \<Rightarrow> e | None \<Rightarrow> Package)
                | _ \<Rightarrow> Package))"

text \<open>The commit messages of a group object: the new key, else the old one as a list.\<close>

definition read_commit_messages :: "(string \<times> json) list \<Rightarrow> json" where
  "read_commit_messages group_data =
     (let commit_messages = dict_get group_data ''commit_messages'' (JArr [])
      in if \<not> truthy commit_messages
         then (let single_message = dict_get group_data ''commit_message'' (JStr [])
               in if truthy single_message then JArr [single_message] else commit_messages)
         else commit_messages)"

text \<open>
  The loop \<open>for f in files\<close> that fills \<open>valid_files\<close>. A listed value that is not a
  string is in no list of strings, and \<open>os.path.normpath\<close> raises TypeError on it. The
  inner loop takes the first file of \<open>all_files\<close> that matches and breaks.
\<close>

fun validate_files :: "json list \<Rightarrow> string list \<Rightarrow> string list \<Rightarrow> py_error + string list" where
  "validate_files [] all_files valid_files = Inr valid_files"
| "validate_files (f # rest) all_files valid_files =
     (case f of
        JStr s \<Rightarrow>
          (if s \<in> set all_files then validate_files rest all_files (valid_files @ [s])
           else (let normalized = normpath s
                 in case find (\<lambda>actual_file. normpath actual_file = normalized \<or>
                                   py_endswith actual_file s \<or> py_endswith s actual_file)
                           all_files of
                      Some actual_file \<Rightarrow> validate_files rest all_files (valid_files @ [actual_file])
                    | None \<Rightarrow> validate_files rest all_files valid_files))
      | _ \<Rightarrow> Inl TypeError)"

text \<open>The name the \<open>while\<close> loop tries after \<open>counter - 1\<close> collisions.\<close>

definition suffixed :: "json \<Rightarrow> nat \<Rightarrow> json" where
  "suffixed base_name counter = JStr (py_str base_name @ ''-'' @ string_of_nat counter)"

section \<open>The renaming loop ends\<close>

lemma string_of_nat_small: "n < 10 \<Longrightarrow> string_of_nat n = [''0123456789'' ! n]"
  by (subst string_of_nat.simps) simp

lemma string_of_nat_large:
  "\<not> n < 10 \<Longrightarrow> string_of_nat n = string_of_nat (n div 10) @ [''0123456789'' ! (n mod 10)]"
  by (subst string_of_nat.simps) simp

lemma string_of_nat_nonempty: "string_of_nat n \<noteq> []"
  by (cases "n < 10") (simp_all add: string_of_nat_small string_of_nat_large)

lemma digit_inj:
  assumes "a < 10" and "b < 10" and "''0123456789'' ! a = ''0123456789'' ! b"
  shows "a = b"
proof -
  have "distinct ''0123456789''" by simp
  moreover have "a < length ''0123456789''" "b < length ''0123456789''"
    using assms by simp_all
  ultimately show ?thesis using assms(3) nth_eq_iff_index_eq by blast
qed

lemma string_of_nat_inj: "string_of_nat n = string_of_nat m \<Longrightarrow> n = m"
proof (induction n arbitrary: m rule: less_induct)
  case (less n)
  have ne: "\<And>k. length (string_of_nat k) > 0" using string_of_nat_nonempty by simp
  show ?case
  proof (cases "n < 10")
    case True
    note nlt = True
    show ?thesis
    proof (cases "m < 10")
      case True
      from less.prems nlt True have "''0123456789'' ! n = ''0123456789'' ! m"
        by (simp add: string_of_nat_small)
      with nlt True show ?thesis by (rule digit_inj)
    next
      case False
      have "length (string_of_nat n) = 1" using nlt by (simp add: string_of_nat_small)
      moreover have "length (string_of_nat m) = length (string_of_nat (m div 10)) + 1"
        using False by (simp add: string_of_nat_large)
      ultimately show ?thesis using less.prems ne [of "m div 10"] by simp
    qed
  next
    case False
    note nge = False
    have en: "string_of_nat n = string_of_nat (n div 10) @ [''0123456789'' ! (n mod 10)]"
      using nge by (rule string_of_nat_large)
    show ?thesis
    proof (cases "m < 10")
      case True
      have "length (string_of_nat m) = 1" using True by (simp add: string_of_nat_small)
      moreover have "length (string_of_nat n) = length (string_of_nat (n div 10)) + 1"
        using nge by (simp add: string_of_nat_large)
      ultimately show ?thesis using less.prems ne [of "n div 10"] by simp
    next
      case False
      have em: "string_of_nat m = string_of_nat (m div 10) @ [''0123456789'' ! (m mod 10)]"
        using False by (rule string_of_nat_large)
      from en em less.prems
      have a: "string_of_nat (n div 10) = string_of_nat (m div 10)"
        and b: "''0123456789'' ! (n mod 10) = ''0123456789'' ! (m mod 10)"
        by simp_all
      from nge have "n div 10 < n" by simp
      from less.IH [OF this a] have d: "n div 10 = m div 10" .
      have "n mod 10 = m mod 10" by (rule digit_inj [OF _ _ b]) simp_all
      with d show ?thesis by (metis div_mult_mod_eq)
    qed
  qed
qed

lemma suffixed_inj: "suffixed base c = suffixed base d \<Longrightarrow> c = d"
  by (simp add: suffixed_def string_of_nat_inj)

lemma dict_contains_iff: "dict_contains k d = (\<exists>k'\<in>fst ` set d. py_key_eq k k')"
  by (auto simp: dict_contains_def list_ex_iff)

lemma py_key_eq_JStr: "py_key_eq (JStr s) k = (k = JStr s)"
  by (cases k) auto

lemma dict_contains_JStr: "dict_contains (JStr s) d = (JStr s \<in> fst ` set d)"
  by (auto simp: dict_contains_iff py_key_eq_JStr)

text \<open>The counters from \<open>counter\<close> on whose name is taken in \<open>result\<close>.\<close>

definition taken_from :: "groups \<Rightarrow> json \<Rightarrow> nat \<Rightarrow> nat set" where
  "taken_from result base_name counter =
     {c. counter \<le> c \<and> dict_contains (suffixed base_name c) result}"

lemma finite_taken_from: "finite (taken_from result base_name counter)"
proof -
  have "inj (suffixed base_name)" by (rule injI) (rule suffixed_inj)
  then have "finite (suffixed base_name -` (fst ` set result))"
    by (intro finite_vimageI) simp_all
  moreover have "taken_from result base_name counter \<subseteq> suffixed base_name -` (fst ` set result)"
    by (force simp: taken_from_def suffixed_def dict_contains_JStr)
  ultimately show ?thesis by (rule rev_finite_subset)
qed

lemma taken_from_step:
  "taken_from result base_name counter =
     (if dict_contains (suffixed base_name counter) result
      then insert counter (taken_from result base_name (counter + 1))
      else taken_from result base_name (counter + 1))"
proof -
  have "\<And>c. counter \<le> c \<longleftrightarrow> c = counter \<or> counter + 1 \<le> c" by auto
  then show ?thesis by (auto simp: taken_from_def)
qed

lemma card_taken_from:
  "card (taken_from result base_name (counter + 1)) +
     (if dict_contains (suffixed base_name counter) result then 1 else 0) =
   card (taken_from result base_name counter)"
proof -
  have "counter \<notin> taken_from result base_name (counter + 1)"
    by (simp add: taken_from_def)
  then show ?thesis
    using finite_taken_from [of result base_name "counter + 1"]
    by (subst (2) taken_from_step) simp
qed

text \<open>
  \<open>while group_name in result: group_name = f"{base_name}-{counter}"; counter += 1\<close>.
  The loop ends: the names it tries are pairwise different and \<open>result\<close> is finite.
\<close>

function unique_name_loop :: "groups \<Rightarrow> json \<Rightarrow> nat \<Rightarrow> json \<Rightarrow> json" where
  "unique_name_loop result base_name counter group_name =
     (if dict_contains group_name result
      then unique_name_loop result base_name (counter + 1) (suffixed base_name counter)
      else group_name)"
  by pat_completeness auto
termination
proof (relation "measure (\<lambda>(result, base_name, counter, group_name).
          card (taken_from result base_name counter) +
          (if dict_contains group_name result then 1 else 0))")
  show "wf (measure (\<lambda>(result, base_name, counter, group_name).
          card (taken_from result base_name counter) +
          (if dict_contains group_name result then 1 else 0)))"
    by simp
next
  fix result :: groups and base_name :: json and counter :: nat and group_name :: json
  assume "dict_contains group_name result"
  then show "((result, base_name, counter + 1, suffixed base_name counter),
              (result, base_name, counter, group_name))
             \<in> measure (\<lambda>(result, base_name, counter, group_name).
                   card (taken_from result base_name counter) +
                   (if dict_contains group_name result then 1 else 0))"
    using card_taken_from [of result base_name counter] by simp
qed

declare unique_name_loop.simps [simp del]

text \<open>One round of \<open>for group_data in groups_list\<close>; the state is \<open>(result, grouped_files)\<close>.\<close>

definition process_group ::
  "string list \<Rightarrow> json \<Rightarrow> groups \<times> string set \<Rightarrow> py_error + groups \<times> string set" where
  "process_group all_files group_data st =
     (case group_data of
        JObj gd \<Rightarrow>
          (let group_name = dict_get gd ''group'' (JStr ''unknown'');
               files_listed = dict_get gd ''files'' (JArr []);
               description = dict_get gd ''description'' (JStr []);
               change_type = dict_get gd ''type'' (JStr ''chore'');
               commit_messages = read_commit_messages gd
           in case py_iter files_listed of
                Inl e \<Rightarrow> Inl e
              | Inr fs \<Rightarrow>
                  (case validate_files fs all_files [] of
                     Inl e \<Rightarrow> Inl e
                   | Inr valid_files \<Rightarrow>
                       (let valid_files = py_unique valid_files
                        in if valid_files \<noteq> []
                           then (if \<not> hashable group_name then Inl TypeError
                                 else (let group_name =
                                             unique_name_loop (fst st) group_name 1 group_name
                                       in case emoji_for change_type of
                                            Inl e \<Rightarrow> Inl e
                                          | Inr emoji \<Rightarrow>
                                              Inr (dict_set group_name
                                                     \<lparr>group_files = valid_files,
                                                      group_description = description,
                                                      group_type = change_type,
                                                      group_emoji = emoji,
                                                      group_commit_messages = commit_messages\<rparr>
                                                     (fst st),
                                                   snd st \<union> set valid_files)))
                           else Inr st)))
      | _ \<Rightarrow> Inl AttributeError)"

fun groups_loop ::
  "string list \<Rightarrow> json list \<Rightarrow> groups \<times> string set \<Rightarrow> py_error + groups \<times> string set" where
  "groups_loop all_files [] st = Inr st"
| "groups_loop all_files (group_data # rest) st =
     (case process_group all_files group_data st of
        Inl e \<Rightarrow> Inl e
      | Inr st' \<Rightarrow> groups_loop all_files rest st')"

definition miscellaneous_group :: "string list \<Rightarrow> group" where
  "miscellaneous_group ungrouped =
     \<lparr>group_files = ungrouped,
      group_description = JStr ''Other changes not directly related to main features'',
      group_type = JStr ''chore'', group_emoji = Package, group_commit_messages = JArr []\<rparr>"

text \<open>The body of the \<open>try\<close> block from the decoded value on.\<close>

definition build_groups :: "json \<Rightarrow> string list \<Rightarrow> py_error + groups" where
  "build_groups groups_list all_files =
     (case py_iter groups_list of
        Inl e \<Rightarrow> Inl e
      | Inr gs \<Rightarrow>
          (case groups_loop all_files gs ([], {}) of
             Inl e \<Rightarrow> Inl e
           | Inr st \<Rightarrow>
               (let ungrouped = filter (\<lambda>f. f \<notin> snd st) all_files
                in Inr (if ungrouped \<noteq> []
                        then dict_set (JStr ''miscellaneous-changes'')
                               (miscellaneous_group ungrouped) (fst st)
                        else fst st))))"

text \<open>
  \<open>parse_relation_groups\<close>. \<open>json.loads\<close> is the parameter \<open>json_loads\<close>, \<open>None\<close> when
  it raises JSONDecodeError. The \<open>except\<close> clause catches JSONDecodeError, KeyError and
  TypeError; any other exception leaves the function (\<open>Inl\<close>).
\<close>

definition parse_relation_groups ::
  "(string \<Rightarrow> json option) \<Rightarrow> string \<Rightarrow> string list \<Rightarrow> py_error + groups" where
  "parse_relation_groups json_loads ai_response all_files =
     (case (case json_loads (clean_response ai_response) of
              None \<Rightarrow> Inl JSONDecodeError
            | Some groups_list \<Rightarrow> build_groups groups_list all_files) of
        Inr result \<Rightarrow> Inr result
      | Inl e \<Rightarrow>
          (if e = JSONDecodeError \<or> e = KeyError \<or> e = TypeError
           then Inr (fallback_intelligent_grouping all_files)
           else Inl e))"

section \<open>Facts about the string primitives\<close>

lemma last_dropWhile: "dropWhile P ys \<noteq> [] \<Longrightarrow> last (dropWhile P ys) = last ys"
proof -
  assume a: "dropWhile P ys \<noteq> []"
  have "last ys = last (takeWhile P ys @ dropWhile P ys)" by simp
  also have "\<dots> = last (dropWhile P ys)" using a by (rule last_appendR)
  finally show ?thesis by simp
qed

lemma rstrip_keeps_head:
  assumes "xs = [] \<or> \<not> P (hd xs)"
  shows "dropWhile P (rev (dropWhile P (rev xs))) = rev (dropWhile P (rev xs))"
proof (cases "dropWhile P (rev xs) = []")
  case True
  show ?thesis by (simp only: True rev.simps dropWhile.simps)
next
  case False
  from False have ne: "xs \<noteq> []" by (cases xs) simp_all
  with assms have "\<not> P (hd xs)" by simp
  moreover have "hd (rev (dropWhile P (rev xs))) = hd xs"
    using False ne by (simp add: hd_rev last_dropWhile last_rev)
  ultimately show ?thesis by (simp add: dropWhile_eq_self_iff)
qed

lemma py_strip_idem: "py_strip (py_strip s) = py_strip s"
proof -
  have h: "dropWhile py_isspace s = [] \<or> \<not> py_isspace (hd (dropWhile py_isspace s))"
    using hd_dropWhile [of py_isspace s] by blast
  show ?thesis
    unfolding py_strip_def
    using rstrip_keeps_head [of "dropWhile py_isspace s" py_isspace] h by simp
qed

lemma py_strip_Nil: "py_strip [] = []"
  by (simp add: py_strip_def)

lemma strip_empty_all_space:
  assumes "py_strip s = []" and "c \<in> set s"
  shows "py_isspace c"
proof -
  from assms(1) have "dropWhile py_isspace (rev (dropWhile py_isspace s)) = []"
    by (simp add: py_strip_def)
  then have "\<forall>x\<in>set (dropWhile py_isspace s). py_isspace x"
    by (simp add: dropWhile_eq_Nil_conv)
  then have "dropWhile py_isspace (dropWhile py_isspace s) = []"
    by (simp only: dropWhile_eq_Nil_conv)
  then have "dropWhile py_isspace s = []" by (simp only: dropWhile_idem)
  with assms(2) show ?thesis by simp
qed

lemma py_split_no_sep: "sep \<notin> set s \<Longrightarrow> py_split sep s = [s]"
  by (induction s) auto

section \<open>The candidate filter\<close>

text \<open>The loop appends, in order, the trimmed candidates that are kept.\<close>

lemma sanitize_loop_filter:
  "sanitize_loop ms valid =
     valid @ filter (\<lambda>c. \<not> py_startswith c error_prefix)
               (filter (\<lambda>c. c \<noteq> []) (map py_strip ms))"
proof (induction ms arbitrary: valid)
  case Nil
  show ?case by simp
next
  case (Cons msg rest)
  show ?case
  proof (cases "msg = []")
    case True
    then show ?thesis by (simp add: Cons.IH py_strip_Nil)
  next
    case False
    then show ?thesis by (simp add: Cons.IH Let_def py_strip_idem)
  qed
qed

lemma blank_string_no_candidates:
  assumes "py_strip s = []"
  shows "filter (\<lambda>c. c \<noteq> []) (map py_strip (py_split CHR ''|'' s)) = []"
proof -
  have "\<not> py_isspace CHR ''|''" by (simp add: py_isspace_def)
  with assms have "CHR ''|'' \<notin> set s" using strip_empty_all_space by blast
  then have "py_split CHR ''|'' s = [s]" by (rule py_split_no_sep)
  with assms show ?thesis by simp
qed

text \<open>
  C3. For a string and for a list of strings, \<open>sanitize_commit_messages\<close> returns the
  candidates (the pieces of a string between \<open>|\<close>, the elements of a list), each
  trimmed, without the empty ones and without the ones that begin with
  \<open>Error generating commit message:\<close>; the string
  \<open>feat: x|Error generating commit message: timeout|fix: y\<close> gives \<open>feat: x\<close> and \<open>fix: y\<close>.
\<close>

theorem sanitize_commit_messages_spec:
  "sanitize_commit_messages messages = sanitize_spec messages \<and>
   sanitize_commit_messages
     (MsgStr ''feat: x|Error generating commit message: timeout|fix: y'') =
     [''feat: x'', ''fix: y'']"
proof
  show "sanitize_commit_messages messages = sanitize_spec messages"
  proof (cases messages)
    case (MsgStr s)
    show ?thesis
    proof (cases "s = [] \<or> py_strip s = []")
      case True
      then have "py_strip s = []" by (auto simp: py_strip_Nil)
      then show ?thesis
        using True MsgStr
        by (simp add: sanitize_commit_messages_def sanitize_spec_def candidates_def
            blank_string_no_candidates)
    next
      case False
      then show ?thesis
        using MsgStr
        by (simp add: sanitize_commit_messages_def sanitize_spec_def candidates_def
            sanitize_loop_filter)
    qed
  next
    case (MsgList ms)
    then show ?thesis
      by (simp add: sanitize_commit_messages_def sanitize_spec_def candidates_def
          sanitize_loop_filter)
  qed
next
  show "sanitize_commit_messages
     (MsgStr ''feat: x|Error generating commit message: timeout|fix: y'') =
     [''feat: x'', ''fix: y'']"
    by (simp add: sanitize_commit_messages_def py_strip_def py_isspace_def
        py_startswith_def error_prefix_def)
qed

text \<open>
  C6. Filtering a list of strings twice gives what filtering it once gives.
\<close>

theorem sanitize_commit_messages_idempotent:
  "sanitize_commit_messages (MsgList (sanitize_commit_messages (MsgList ms))) =
   sanitize_commit_messages (MsgList ms)"
proof -
  let ?keep = "\<lambda>c. \<not> py_startswith c error_prefix"
  let ?ne = "\<lambda>c::string. c \<noteq> []"
  let ?once = "filter ?keep (filter ?ne (map py_strip ms))"
  have fixed: "map py_strip ?once = ?once"
    by (rule map_idI) (auto simp: py_strip_idem)
  have "filter ?keep (filter ?ne (map py_strip ?once)) = filter ?keep (filter ?ne ?once)"
    by (simp only: fixed)
  also have "\<dots> = ?once"
    by (auto intro: filter_cong)
  finally show ?thesis
    by (simp add: sanitize_commit_messages_def sanitize_loop_filter)
qed

section \<open>Dictionaries of lists\<close>

lemma set_py_unique: "set (py_unique xs) = set xs"
  by (induction xs) auto

lemma distinct_py_unique: "distinct (py_unique xs)"
  by (induction xs) (auto simp: set_py_unique)

lemma py_unique_snoc:
  "py_unique (xs @ [x]) = (if x \<in> set xs then py_unique xs else py_unique xs @ [x])"
  by (induction xs) auto

text \<open>The items a loop of \<open>d[key(x)].append(x)\<close> over \<open>xs\<close> leaves in an empty dictionary.\<close>

definition buckets :: "('a \<Rightarrow> 'k) \<Rightarrow> 'a list \<Rightarrow> ('k \<times> 'a list) list" where
  "buckets key xs = map (\<lambda>k. (k, filter (\<lambda>x. key x = k) xs)) (py_unique (map key xs))"

lemma dict_append_new:
  "k \<notin> fst ` set d \<Longrightarrow> dict_append k v d = d @ [(k, [v])]"
  by (induction d) auto

lemma dict_append_old:
  "k \<in> set ks \<Longrightarrow> distinct ks \<Longrightarrow>
   dict_append k v (map (\<lambda>k'. (k', g k')) ks) =
     map (\<lambda>k'. (k', if k' = k then g k' @ [v] else g k')) ks"
proof (induction ks)
  case Nil
  then show ?case by simp
next
  case (Cons a ks)
  show ?case
  proof (cases "k = a")
    case True
    with Cons.prems have "k \<notin> set ks" by simp
    then have "map (\<lambda>k'. (k', if k' = k then g k' @ [v] else g k')) ks =
               map (\<lambda>k'. (k', g k')) ks"
      by (intro map_cong) auto
    with True show ?thesis by simp
  next
    case False
    with Cons show ?thesis by simp
  qed
qed

lemma fst_set_buckets: "fst ` set (buckets key xs) = key ` set xs"
  by (simp add: buckets_def image_image set_py_unique)

lemma map_fst_buckets: "map fst (buckets key xs) = py_unique (map key xs)"
  by (simp add: buckets_def comp_def)

lemma buckets_snoc: "buckets key (xs @ [x]) = dict_append (key x) x (buckets key xs)"
proof (cases "key x \<in> key ` set xs")
  case True
  then have "key x \<in> set (py_unique (map key xs))" by (simp add: set_py_unique)
  from dict_append_old [OF this distinct_py_unique, of x "\<lambda>k. filter (\<lambda>y. key y = k) xs"]
  show ?thesis
    using True by (auto simp: buckets_def py_unique_snoc)
next
  case False
  then have new: "key x \<notin> fst ` set (buckets key xs)" by (simp add: fst_set_buckets)
  have empty: "filter (\<lambda>y. key y = key x) xs = []"
  proof -
    have "\<And>y. y \<in> set xs \<Longrightarrow> key y \<noteq> key x"
      using False by (metis imageI)
    then show ?thesis by (simp add: filter_empty_conv)
  qed
  have same: "map (\<lambda>k. (k, filter (\<lambda>y. key y = k) xs @ (if key x = k then [x] else [])))
                (py_unique (map key xs)) =
              map (\<lambda>k. (k, filter (\<lambda>y. key y = k) xs)) (py_unique (map key xs))"
    using False by (intro map_cong) (auto simp: set_py_unique)
  have "buckets key (xs @ [x]) =
        map (\<lambda>k. (k, filter (\<lambda>y. key y = k) xs @ (if key x = k then [x] else [])))
          (py_unique (map key xs)) @
        [(key x, filter (\<lambda>y. key y = key x) xs @ [x])]"
    using False by (simp add: buckets_def py_unique_snoc)
  also have "\<dots> = buckets key xs @ [(key x, [x])]"
    by (simp only: same empty buckets_def append_Nil)
  finally show ?thesis by (simp add: dict_append_new [OF new])
qed

lemma group_files_loop_snoc:
  "group_files_loop (fs @ [f]) grouped = dict_append (root_dir_of f) f (group_files_loop fs grouped)"
  by (induction fs arbitrary: grouped) simp_all

lemma group_files_by_directory_buckets:
  "group_files_by_directory fs = buckets root_dir_of fs"
  unfolding group_files_by_directory_def
proof (induction fs rule: rev_induct)
  case Nil
  show ?case by (simp add: buckets_def)
next
  case (snoc f fs)
  then show ?case by (simp add: group_files_loop_snoc buckets_snoc)
qed

lemma mset_concat_buckets_gen:
  "distinct ks \<Longrightarrow>
   mset (concat (map (\<lambda>k. filter (\<lambda>x. key x = k) xs) ks)) =
   mset (filter (\<lambda>x. key x \<in> set ks) xs)"
proof (induction ks)
  case Nil
  show ?case by simp
next
  case (Cons k ks)
  then have "mset (concat (map (\<lambda>k. filter (\<lambda>x. key x = k) xs) (k # ks))) =
        mset (filter (\<lambda>x. key x = k) xs) + mset (filter (\<lambda>x. key x \<in> set ks) xs)"
    by simp
  also have "\<dots> = mset (filter (\<lambda>x. key x \<in> set (k # ks)) xs)"
    using Cons.prems by (induction xs) auto
  finally show ?case .
qed

lemma mset_concat_buckets: "mset (concat (map snd (buckets key xs))) = mset xs"
proof -
  have "mset (concat (map snd (buckets key xs))) =
        mset (filter (\<lambda>x. key x \<in> set (py_unique (map key xs))) xs)"
    using mset_concat_buckets_gen [OF distinct_py_unique, of key xs "map key xs"]
    by (simp add: buckets_def comp_def)
  also have "\<dots> = mset xs" by (simp add: set_py_unique)
  finally show ?thesis .
qed

lemma py_split_nonempty: "py_split sep s \<noteq> []"
  by (induction s) (auto split: list.splits)

lemma length_py_split: "length (py_split sep s) = Suc (length (filter (\<lambda>c. c = sep) s))"
  by (induction s) (auto split: list.splits simp: py_split_nonempty)

lemma hd_py_split: "hd (py_split sep s) = takeWhile (\<lambda>c. c \<noteq> sep) s"
  by (induction s) (auto split: list.splits simp: py_split_nonempty)

lemma root_dir_of_cases:
  "root_dir_of f = (if os_sep \<in> set f then takeWhile (\<lambda>c. c \<noteq> os_sep) f else ''root'')"
proof -
  have "(length (py_split os_sep f) > 1) = (os_sep \<in> set f)"
    by (auto simp: length_py_split filter_empty_conv)
  then show ?thesis
    by (simp add: root_dir_of_def Let_def hd_py_split)
qed

text \<open>
  C9. \<open>group_files_by_directory\<close> splits its input into directory groups: the keys are
  pairwise different, the group of a key holds exactly the input files with that key (in
  input order) and is not empty, every input file has its key among the groups, and the
  groups together hold every entry of the input once. The key of a file is its first
  path segment, or \<open>root\<close> when the path has no separator.
\<close>

theorem group_files_by_directory_partition:
  "distinct (map fst (group_files_by_directory fs)) \<and>
   (\<forall>(d, gs) \<in> set (group_files_by_directory fs).
        gs \<noteq> [] \<and> gs = filter (\<lambda>f. root_dir_of f = d) fs) \<and>
   (\<forall>f \<in> set fs. root_dir_of f \<in> fst ` set (group_files_by_directory fs) \<and>
        root_dir_of f =
          (if os_sep \<in> set f then takeWhile (\<lambda>c. c \<noteq> os_sep) f else ''root'')) \<and>
   mset (concat (map snd (group_files_by_directory fs))) = mset fs"
proof (intro conjI)
  show "distinct (map fst (group_files_by_directory fs))"
    by (simp add: group_files_by_directory_buckets map_fst_buckets distinct_py_unique)
  show "\<forall>(d, gs) \<in> set (group_files_by_directory fs).
          gs \<noteq> [] \<and> gs = filter (\<lambda>f. root_dir_of f = d) fs"
    by (auto simp: group_files_by_directory_buckets buckets_def set_py_unique filter_empty_conv)
  show "\<forall>f \<in> set fs. root_dir_of f \<in> fst ` set (group_files_by_directory fs) \<and>
          root_dir_of f =
            (if os_sep \<in> set f then takeWhile (\<lambda>c. c \<noteq> os_sep) f else ''root'')"
    using root_dir_of_cases
    by (simp add: group_files_by_directory_buckets fst_set_buckets)
  show "mset (concat (map snd (group_files_by_directory fs))) = mset fs"
    by (simp add: group_files_by_directory_buckets mset_concat_buckets)
qed

theorem group_files_by_directory_partition_witness:
  "group_files_by_directory [''a/foo.py'', ''README.md'', ''a/bar.py''] =
     [(''a'', [''a/foo.py'', ''a/bar.py'']), (''root'', [''README.md''])] \<and>
   distinct (map fst (group_files_by_directory [''a/foo.py'', ''README.md'', ''a/bar.py''])) \<and>
   mset (concat (map snd (group_files_by_directory [''a/foo.py'', ''README.md'', ''a/bar.py'']))) =
     mset [''a/foo.py'', ''README.md'', ''a/bar.py'']"
  using group_files_by_directory_partition [of "[''a/foo.py'', ''README.md'', ''a/bar.py'']"]
  by (simp add: group_files_by_directory_def root_dir_of_def os_sep_def)

section \<open>Diffs in the grouping prompt\<close>

lemma truncated_diff_cases:
  "truncated_diff diff =
     (if length diff \<le> 3000 then diff else take 3000 diff @ CHR 0x0A # ''... [truncated]'')"
  by (simp add: truncated_diff_def truncation_marker_def)

lemma diff_entry_explicit:
  "diff_entry =
     (\<lambda>(file_path, diff).
        [''### FILE: '' @ file_path, ''```diff'',
         (if length diff \<le> 3000 then diff else take 3000 diff @ CHR 0x0A # ''... [truncated]''),
         ''```'', ''''])"
  by (rule ext) (simp add: diff_entry_def truncated_diff_cases split: prod.split)

text \<open>
  C8, as the code has it. The prompt is the instructions, one line per file, the header of
  the diff section, then for every item of \<open>diffs\<close>, in order, the five lines of its
  entry, then the output requirements. In every entry a diff of at most 3000 characters
  is embedded unchanged; a longer one is cut to its first 3000 characters and followed by
  the marker \<open>\n... [truncated]\<close> of 16 characters. So the embedded text of every item
  begins with the first 3000 characters of its diff, holds no other character of the
  diff, and is at most 3016 characters long (exactly 3016 for a diff that was cut).
\<close>

theorem generate_relation_grouping_prompt_truncates:
  "generate_relation_grouping_prompt instructions requirements files_in diffs =
     py_join (CHR 0x0A)
       (instructions @
        map (\<lambda>file_path. ''  - '' @ file_path) files_in @
        ['''', replicate 60 CHR ''='', ''FILE DIFFS (analyze content for relationships):'',
         replicate 60 CHR ''='', ''''] @
        concat (map (\<lambda>(file_path, diff).
                  [''### FILE: '' @ file_path, ''```diff'',
                   (if length diff \<le> 3000 then diff
                    else take 3000 diff @ CHR 0x0A # ''... [truncated]''),
                   ''```'', '''']) diffs) @
        requirements) \<and>
   (\<forall>(file_path, diff) \<in> set diffs.
      length (if length diff \<le> 3000 then diff
              else take 3000 diff @ CHR 0x0A # ''... [truncated]'') \<le> 3016 \<and>
      take 3000 (if length diff \<le> 3000 then diff
                 else take 3000 diff @ CHR 0x0A # ''... [truncated]'') = take 3000 diff \<and>
      (3000 < length diff \<longrightarrow>
         length (if length diff \<le> 3000 then diff
                 else take 3000 diff @ CHR 0x0A # ''... [truncated]'') = 3016))"
proof (intro conjI)
  show "generate_relation_grouping_prompt instructions requirements files_in diffs =
     py_join (CHR 0x0A)
       (instructions @
        map (\<lambda>file_path. ''  - '' @ file_path) files_in @
        ['''', replicate 60 CHR ''='', ''FILE DIFFS (analyze content for relationships):'',
         replicate 60 CHR ''='', ''''] @
        concat (map (\<lambda>(file_path, diff).
                  [''### FILE: '' @ file_path, ''```diff'',
                   (if length diff \<le> 3000 then diff
                    else take 3000 diff @ CHR 0x0A # ''... [truncated]''),
                   ''```'', '''']) diffs) @
        requirements)"
    unfolding generate_relation_grouping_prompt_def diff_entry_explicit ..
  show "\<forall>(file_path, diff) \<in> set diffs.
      length (if length diff \<le> 3000 then diff
              else take 3000 diff @ CHR 0x0A # ''... [truncated]'') \<le> 3016 \<and>
      take 3000 (if length diff \<le> 3000 then diff
                 else take 3000 diff @ CHR 0x0A # ''... [truncated]'') = take 3000 diff \<and>
      (3000 < length diff \<longrightarrow>
         length (if length diff \<le> 3000 then diff
                 else take 3000 diff @ CHR 0x0A # ''... [truncated]'') = 3016)"
    by (auto simp: min_def)
qed

theorem generate_relation_grouping_prompt_truncates_witness:
  "generate_relation_grouping_prompt [''Group the files.''] [''Return JSON.''] [''a.py'', ''b.py'']
     [(''a.py'', ''+ new line''), (''b.py'', replicate 3001 CHR ''x'')] =
     py_join (CHR 0x0A)
       [''Group the files.'', ''  - a.py'', ''  - b.py'', '''', replicate 60 CHR ''='',
        ''FILE DIFFS (analyze content for relationships):'', replicate 60 CHR ''='', '''',
        ''### FILE: a.py'', ''```diff'', ''+ new line'', ''```'', '''',
        ''### FILE: b.py'', ''```diff'',
        replicate 3000 CHR ''x'' @ CHR 0x0A # ''... [truncated]'', ''```'', '''',
        ''Return JSON.''] \<and>
   length (replicate 3000 CHR ''x'' @ CHR 0x0A # ''... [truncated]'') = 3016 \<and>
   length ''+ new line'' \<le> 3016"
  using generate_relation_grouping_prompt_truncates
    [of "[''Group the files.'']" "[''Return JSON.'']" "[''a.py'', ''b.py'']"
        "[(''a.py'', ''+ new line''), (''b.py'', replicate 3001 CHR ''x'')]"]
  by simp

text \<open>
  The claim as worded fails: for a diff of 3001 characters the prompt holds an entry of
  3016 characters.
\<close>

theorem prompt_entry_longer_than_3000:
  "generate_relation_grouping_prompt [] [] [''a.py''] [(''a.py'', replicate 3001 CHR ''x'')] =
     py_join (CHR 0x0A)
       [''  - a.py'', '''', replicate 60 CHR ''='',
        ''FILE DIFFS (analyze content for relationships):'', replicate 60 CHR ''='', '''',
        ''### FILE: a.py'', ''```diff'',
        replicate 3000 CHR ''x'' @ CHR 0x0A # ''... [truncated]'',
        ''```'', ''''] \<and>
   length (replicate 3000 CHR ''x'' @ CHR 0x0A # ''... [truncated]'') = 3016 \<and>
   \<not> length (truncated_diff (replicate 3001 CHR ''x'')) \<le> 3000"
  by (simp add: generate_relation_grouping_prompt_def diff_entry_def truncated_diff_def
      truncation_marker_def)

section \<open>The heuristic grouping, loop by loop\<close>

text \<open>
  The grouping as a specification words it, for a key function \<open>key\<close>: one group
  \<open>e-related\<close> for every key \<open>e\<close> longer than one character that more than one file
  has, holding the files with that key; the files with no such key grouped by
  \<open>root_dir_of\<close> into \<open>d-changes\<close>; a single group \<open>all-changes\<close> when there is no
  group at all. Keys and directories come in the order of their first file.
\<close>

definition shared_keys :: "(string \<Rightarrow> string) \<Rightarrow> string list \<Rightarrow> string list" where
  "shared_keys key fs =
     filter (\<lambda>e. length e > 1 \<and> length (filter (\<lambda>f. key f = e) fs) > 1)
       (py_unique (map key fs))"

definition unclaimed_files :: "(string \<Rightarrow> string) \<Rightarrow> string list \<Rightarrow> string list" where
  "unclaimed_files key fs = filter (\<lambda>f. key f \<notin> set (shared_keys key fs)) fs"

definition entity_groups :: "(string \<Rightarrow> string) \<Rightarrow> string list \<Rightarrow> groups" where
  "entity_groups key fs =
     map (\<lambda>e. (JStr (e @ ''-related''), related_group e (filter (\<lambda>f. key f = e) fs)))
       (shared_keys key fs)"

definition directory_groups :: "(string \<Rightarrow> string) \<Rightarrow> string list \<Rightarrow> groups" where
  "directory_groups key fs =
     map (\<lambda>d. (JStr (d @ ''-changes''),
                directory_group d (filter (\<lambda>f. root_dir_of f = d) (unclaimed_files key fs))))
       (py_unique (map root_dir_of (unclaimed_files key fs)))"

definition fallback_spec :: "(string \<Rightarrow> string) \<Rightarrow> string list \<Rightarrow> groups" where
  "fallback_spec key fs =
     (if entity_groups key fs @ directory_groups key fs = []
      then [(JStr ''all-changes'', all_changes_group fs)]
      else entity_groups key fs @ directory_groups key fs)"

lemma py_unique_filter: "py_unique (filter P xs) = filter P (py_unique xs)"
proof (induction xs)
  case Nil
  show ?case by simp
next
  case (Cons x xs)
  show ?case
  proof (cases "P x")
    case True
    have "filter (\<lambda>y. y \<noteq> x) (filter P (py_unique xs)) =
          filter P (filter (\<lambda>y. y \<noteq> x) (py_unique xs))"
      by (simp add: conj_commute)
    with True Cons show ?thesis by simp
  next
    case False
    have "filter P (filter (\<lambda>y. y \<noteq> x) (py_unique xs)) = filter P (py_unique xs)"
      using False by (auto intro: filter_cong)
    with False Cons show ?thesis by simp
  qed
qed

lemma entity_patterns_loop_snoc:
  "entity_patterns_loop (fs @ [f]) d =
     (if length (entity_key f) > 1
      then dict_append (entity_key f) f (entity_patterns_loop fs d)
      else entity_patterns_loop fs d)"
  by (induction fs arbitrary: d) (auto simp: Let_def)

lemma entity_patterns_loop_buckets:
  "entity_patterns_loop fs [] = buckets entity_key (filter (\<lambda>f. length (entity_key f) > 1) fs)"
proof (induction fs rule: rev_induct)
  case Nil
  show ?case by (simp add: buckets_def)
next
  case (snoc f fs)
  then show ?case by (simp add: entity_patterns_loop_snoc buckets_snoc)
qed

lemma dict_contains_append:
  "dict_contains k (d @ d') = (dict_contains k d \<or> dict_contains k d')"
  by (auto simp: dict_contains_def)

lemma dict_set_new: "\<not> dict_contains k d \<Longrightarrow> dict_set k v d = d @ [(k, v)]"
  by (induction d) (auto simp: dict_contains_def)

lemma entity_groups_loop_append:
  assumes "distinct (map fst eps)"
    and "\<And>e. e \<in> fst ` set eps \<Longrightarrow> \<not> dict_contains (JStr (e @ ''-related'')) groups"
  shows "entity_groups_loop eps (groups, grouped) =
     (groups @ map (\<lambda>(e, fs). (JStr (e @ ''-related''), related_group e fs))
                 (filter (\<lambda>(e, fs). length fs > 1) eps),
      grouped \<union> \<Union> (set ` snd ` set (filter (\<lambda>(e, fs). length fs > 1) eps)))"
  using assms
proof (induction eps arbitrary: groups grouped)
  case Nil
  show ?case by simp
next
  case (Cons p eps)
  obtain e fs where p: "p = (e, fs)" by (cases p)
  from Cons.prems(1) p have d: "distinct (map fst eps)" and ne: "e \<notin> fst ` set eps" by auto
  show ?case
  proof (cases "length fs > 1")
    case True
    have new: "\<not> dict_contains (JStr (e @ ''-related'')) groups"
      using Cons.prems(2) [of e] p by simp
    have rest: "\<And>e'. e' \<in> fst ` set eps \<Longrightarrow>
        \<not> dict_contains (JStr (e' @ ''-related''))
             (groups @ [(JStr (e @ ''-related''), related_group e fs)])"
    proof -
      fix e' assume a: "e' \<in> fst ` set eps"
      then have "e' \<noteq> e" using ne by auto
      moreover have "\<not> dict_contains (JStr (e' @ ''-related'')) groups"
        using Cons.prems(2) [of e'] a by simp
      ultimately show "\<not> dict_contains (JStr (e' @ ''-related''))
             (groups @ [(JStr (e @ ''-related''), related_group e fs)])"
        by (simp add: dict_contains_append dict_contains_JStr)
    qed
    show ?thesis
      using True p Cons.IH [OF d rest] by (simp add: dict_set_new [OF new] Un_assoc)
  next
    case False
    have rest: "\<And>e'. e' \<in> fst ` set eps \<Longrightarrow> \<not> dict_contains (JStr (e' @ ''-related'')) groups"
      using Cons.prems(2) by simp
    show ?thesis
      using False p Cons.IH [OF d rest] by simp
  qed
qed

lemma dir_groups_loop_append:
  assumes "distinct (map fst dgs)"
    and "\<And>d. d \<in> fst ` set dgs \<Longrightarrow> \<not> dict_contains (JStr (d @ ''-changes'')) groups"
  shows "dir_groups_loop dgs groups =
     groups @ map (\<lambda>(d, fs). (JStr (d @ ''-changes''), directory_group d fs)) dgs"
  using assms
proof (induction dgs arbitrary: groups)
  case Nil
  show ?case by simp
next
  case (Cons p dgs)
  obtain d fs where p: "p = (d, fs)" by (cases p)
  from Cons.prems(1) p have dd: "distinct (map fst dgs)" and ne: "d \<notin> fst ` set dgs" by auto
  have new: "\<not> dict_contains (JStr (d @ ''-changes'')) groups"
    using Cons.prems(2) [of d] p by simp
  have rest: "\<And>d'. d' \<in> fst ` set dgs \<Longrightarrow>
      \<not> dict_contains (JStr (d' @ ''-changes''))
           (groups @ [(JStr (d @ ''-changes''), directory_group d fs)])"
  proof -
    fix d' assume a: "d' \<in> fst ` set dgs"
    then have "d' \<noteq> d" using ne by auto
    moreover have "\<not> dict_contains (JStr (d' @ ''-changes'')) groups"
      using Cons.prems(2) [of d'] a by simp
    ultimately show "\<not> dict_contains (JStr (d' @ ''-changes''))
           (groups @ [(JStr (d @ ''-changes''), directory_group d fs)])"
      by (simp add: dict_contains_append dict_contains_JStr)
  qed
  show ?case
    using p Cons.IH [OF dd rest] by (simp add: dict_set_new [OF new])
qed

lemma related_not_changes: "e @ ''-related'' \<noteq> d @ ''-changes''"
proof
  assume "e @ ''-related'' = d @ ''-changes''"
  then have "last (e @ ''-related'') = last (d @ ''-changes'')" by simp
  then show False by simp
qed

lemma shared_entities:
  fixes fs :: "string list"
  shows "filter (\<lambda>(e, gs). length gs > 1) (entity_patterns_loop fs []) =
         map (\<lambda>e. (e, filter (\<lambda>f. entity_key f = e) fs)) (shared_keys entity_key fs)"
proof -
  let ?long = "\<lambda>f. length (entity_key f) > 1"
  let ?G = "\<lambda>e. filter (\<lambda>f. entity_key f = e) (filter ?long fs)"
  let ?ks = "filter (\<lambda>e. length e > 1) (py_unique (map entity_key fs))"
  have keys: "py_unique (map entity_key (filter ?long fs)) = ?ks"
  proof -
    have "map entity_key (filter ?long fs) = filter (\<lambda>e. length e > 1) (map entity_key fs)"
      by (simp add: filter_map comp_def)
    then show ?thesis by (simp add: py_unique_filter)
  qed
  have G: "\<And>e. length e > 1 \<Longrightarrow> ?G e = filter (\<lambda>f. entity_key f = e) fs"
    by (auto intro: filter_cong)
  have "entity_patterns_loop fs [] = map (\<lambda>e. (e, ?G e)) ?ks"
    by (simp only: entity_patterns_loop_buckets buckets_def keys)
  also have "\<dots> = map (\<lambda>e. (e, filter (\<lambda>f. entity_key f = e) fs)) ?ks"
  proof (rule map_cong)
    fix e assume "e \<in> set ?ks"
    then have "length e > 1" by simp
    then show "(e, ?G e) = (e, filter (\<lambda>f. entity_key f = e) fs)"
      by (simp only: G)
  qed simp
  finally have eps: "entity_patterns_loop fs [] =
      map (\<lambda>e. (e, filter (\<lambda>f. entity_key f = e) fs)) ?ks" .
  show ?thesis
    unfolding eps shared_keys_def
    by (simp add: filter_map comp_def conj_commute)
qed

text \<open>
  The function equals the specification with the key \<open>entity_key\<close>.
\<close>

lemma fallback_is_spec:
  "fallback_intelligent_grouping fs = fallback_spec entity_key fs"
proof -
  define shared where "shared = shared_keys entity_key fs"
  define unclaimed where "unclaimed = unclaimed_files entity_key fs"
  define egs where "egs = entity_groups entity_key fs"
  define dgs where "dgs = directory_groups entity_key fs"
  define eps where "eps = entity_patterns_loop fs []"
  have eps_big: "filter (\<lambda>(e, gs). length gs > 1) eps =
      map (\<lambda>e. (e, filter (\<lambda>f. entity_key f = e) fs)) shared"
    unfolding eps_def shared_def by (rule shared_entities)
  have eps_distinct: "distinct (map fst eps)"
    by (simp add: eps_def entity_patterns_loop_buckets map_fst_buckets distinct_py_unique)
  have loop2: "entity_groups_loop eps ([], {}) =
      (egs, {f \<in> set fs. entity_key f \<in> set shared})"
  proof -
    have "entity_groups_loop eps ([], {}) =
        ([] @ map (\<lambda>(e, gs). (JStr (e @ ''-related''), related_group e gs))
                 (filter (\<lambda>(e, gs). length gs > 1) eps),
         {} \<union> \<Union> (set ` snd ` set (filter (\<lambda>(e, gs). length gs > 1) eps)))"
      by (rule entity_groups_loop_append [OF eps_distinct]) (simp add: dict_contains_def)
    also have "\<dots> = (egs, {f \<in> set fs. entity_key f \<in> set shared})"
      unfolding eps_big egs_def entity_groups_def shared_def [symmetric]
      by (auto simp: comp_def)
    finally show ?thesis .
  qed
  have ungrouped: "filter (\<lambda>f. f \<notin> {f \<in> set fs. entity_key f \<in> set shared}) fs = unclaimed"
    unfolding unclaimed_def unclaimed_files_def shared_def [symmetric] by (rule filter_cong) auto
  have loop3: "dir_groups_loop (group_files_by_directory unclaimed) egs =
      egs @ dgs"
  proof -
    have "dir_groups_loop (buckets root_dir_of unclaimed) egs =
        egs @ map (\<lambda>(d, gs). (JStr (d @ ''-changes''), directory_group d gs))
                          (buckets root_dir_of unclaimed)"
    proof (rule dir_groups_loop_append)
      show "distinct (map fst (buckets root_dir_of unclaimed))"
        by (simp add: map_fst_buckets distinct_py_unique)
    next
      fix d
      show "\<not> dict_contains (JStr (d @ ''-changes'')) egs"
        using related_not_changes
        by (auto simp: dict_contains_JStr egs_def entity_groups_def)
    qed
    then show ?thesis
      by (simp add: group_files_by_directory_buckets buckets_def dgs_def
          directory_groups_def unclaimed_def comp_def)
  qed
  have no_dirs: "unclaimed = [] \<Longrightarrow> dgs = []"
    by (simp add: dgs_def directory_groups_def unclaimed_def)
  have "fallback_intelligent_grouping fs =
      (if (if unclaimed \<noteq> []
           then dir_groups_loop (group_files_by_directory unclaimed) egs
           else egs) \<noteq> []
       then (if unclaimed \<noteq> []
             then dir_groups_loop (group_files_by_directory unclaimed) egs
             else egs)
       else [(JStr ''all-changes'', all_changes_group fs)])"
    by (simp only: fallback_intelligent_grouping_def Let_def eps_def [symmetric] loop2
        prod.case ungrouped)
  also have "\<dots> =
      (if egs @ dgs \<noteq> [] then egs @ dgs
       else [(JStr ''all-changes'', all_changes_group fs)])"
    using no_dirs by (cases "unclaimed = []") (simp_all add: loop3)
  also have "\<dots> = fallback_spec entity_key fs"
    unfolding fallback_spec_def egs_def dgs_def by simp
  finally show ?thesis .
qed

section \<open>The heuristic grouping: claims\<close>

text \<open>
  The key as the claim words it: the basename without extension, the role prefix and
  the role suffix stripped without regard to case, in lower case. The function strips,
  after these, one of the capitalised suffixes \<open>Controller\<close>, \<open>Service\<close>, \<open>Model\<close>,
  \<open>Schema\<close>, \<open>Migration\<close>, \<open>Api\<close>, \<open>Route\<close>, \<open>Handler\<close>, \<open>Test\<close>, \<open>Spec\<close> as well.
\<close>

definition role_stripped :: "string \<Rightarrow> string" where
  "role_stripped file_path =
     sub_suffix match_ci role_suffixes (strip_role_prefix (splitext_root (basename file_path)))"

definition claimed_key :: "string \<Rightarrow> string" where
  "claimed_key file_path = py_lower (role_stripped file_path)"

lemma key_examples:
  "entity_key ''UserModel.py'' = ''user''"
  "entity_key ''UserController.py'' = ''user''"
  "claimed_key ''UserModel.py'' = ''usermodel''"
  "claimed_key ''UserController.py'' = ''usercontroller''"
  by code_simp+

text \<open>
  The claim as worded fails: two files that share their name only up to a capitalised suffix are
  one \<open>user-related\<close> group in the code, and two ungrouped files of the root directory
  by the key of the claim.
\<close>

theorem fallback_strips_capitalised_suffixes:
  "fallback_intelligent_grouping [''UserModel.py'', ''UserController.py''] =
     [(JStr ''user-related'',
       related_group ''user'' [''UserModel.py'', ''UserController.py''])] \<and>
   fallback_spec claimed_key [''UserModel.py'', ''UserController.py''] =
     [(JStr ''root-changes'',
       directory_group ''root'' [''UserModel.py'', ''UserController.py''])]"
  by (simp add: fallback_is_spec fallback_spec_def entity_groups_def directory_groups_def
      shared_keys_def unclaimed_files_def key_examples root_dir_of_def os_sep_def)

text \<open>
  C4, with the key of the code. The function equals the grouping of the specification
  for the key \<open>entity_key\<close>, which is the key of the claim with one of the capitalised
  suffixes stripped (case-sensitively) before the lower-casing.
\<close>

theorem fallback_intelligent_grouping_spec:
  "fallback_intelligent_grouping fs = fallback_spec entity_key fs \<and>
   entity_key f = py_lower (sub_suffix (\<lambda>a t. t = a) camel_suffixes (role_stripped f))"
proof (intro conjI)
  show "fallback_intelligent_grouping fs = fallback_spec entity_key fs"
    by (rule fallback_is_spec)
  show "entity_key f = py_lower (sub_suffix (\<lambda>a t. t = a) camel_suffixes (role_stripped f))"
    by (simp add: entity_key_def role_stripped_def)
qed

lemma key_examples2:
  "entity_key ''m/user.py'' = ''user''" "entity_key ''t/test_user.py'' = ''user''"
  "entity_key ''x/y.py'' = ''y''" "entity_key ''README'' = ''readme''"
  by code_simp+

theorem fallback_intelligent_grouping_spec_witness:
  "fallback_intelligent_grouping [''m/user.py'', ''t/test_user.py'', ''x/y.py'', ''README''] =
     [(JStr ''user-related'', related_group ''user'' [''m/user.py'', ''t/test_user.py'']),
      (JStr ''x-changes'', directory_group ''x'' [''x/y.py'']),
      (JStr ''root-changes'', directory_group ''root'' [''README''])] \<and>
   fallback_intelligent_grouping [] = [(JStr ''all-changes'', all_changes_group [])]"
  using fallback_intelligent_grouping_spec
          [of "[''m/user.py'', ''t/test_user.py'', ''x/y.py'', ''README'']" "''README''",
           THEN conjunct1]
        fallback_intelligent_grouping_spec [of "[]" "''README''", THEN conjunct1]
  by (simp add: fallback_spec_def entity_groups_def directory_groups_def
      shared_keys_def unclaimed_files_def key_examples2 root_dir_of_def os_sep_def)

section \<open>The heuristic grouping does not depend on the order of the files\<close>

text \<open>
  A grouping without the order of its groups and without the order of the files in a
  group: the set of its groups, each with its name, the multiset of its files and its
  other fields.
\<close>

definition unordered :: "group \<Rightarrow> string multiset \<times> group" where
  "unordered g = (mset (group_files g), g\<lparr>group_files := []\<rparr>)"

definition partition_of :: "groups \<Rightarrow> (json \<times> string multiset \<times> group) set" where
  "partition_of r = (\<lambda>ng. (fst ng, unordered (snd ng))) ` set r"

text \<open>The same, computed from the multiset of the files.\<close>

definition shared_of :: "(string \<Rightarrow> string) \<Rightarrow> string multiset \<Rightarrow> string set" where
  "shared_of key M =
     {e \<in> key ` set_mset M. length e > 1 \<and> size (filter_mset (\<lambda>f. key f = e) M) > 1}"

definition unclaimed_of :: "(string \<Rightarrow> string) \<Rightarrow> string multiset \<Rightarrow> string multiset" where
  "unclaimed_of key M = filter_mset (\<lambda>f. key f \<notin> shared_of key M) M"

definition grouping_of_mset ::
  "(string \<Rightarrow> string) \<Rightarrow> string multiset \<Rightarrow> (json \<times> string multiset \<times> group) set" where
  "grouping_of_mset key M =
     (let E = (\<lambda>e. (JStr (e @ ''-related''),
                     filter_mset (\<lambda>f. key f = e) M, related_group e [])) ` shared_of key M;
          D = (\<lambda>d. (JStr (d @ ''-changes''),
                     filter_mset (\<lambda>f. root_dir_of f = d) (unclaimed_of key M),
                     directory_group d [])) ` root_dir_of ` set_mset (unclaimed_of key M)
      in if E \<union> D = {} then {(JStr ''all-changes'', M, all_changes_group [])} else E \<union> D)"

lemma set_shared_keys: "set (shared_keys key fs) = shared_of key (mset fs)"
proof -
  have "\<And>e. length (filter (\<lambda>f. key f = e) fs) = size (filter_mset (\<lambda>f. key f = e) (mset fs))"
    by (metis mset_filter size_mset)
  then show ?thesis
    by (auto simp: shared_keys_def shared_of_def set_py_unique)
qed

lemma mset_unclaimed_files: "mset (unclaimed_files key fs) = unclaimed_of key (mset fs)"
  by (simp add: unclaimed_files_def unclaimed_of_def set_shared_keys)

lemma partition_of_append: "partition_of (r @ r') = partition_of r \<union> partition_of r'"
  by (simp add: partition_of_def image_Un)

lemma partition_of_entity_groups:
  "partition_of (entity_groups key fs) =
     (\<lambda>e. (JStr (e @ ''-related''), filter_mset (\<lambda>f. key f = e) (mset fs), related_group e []))
       ` shared_of key (mset fs)"
  by (simp add: partition_of_def entity_groups_def image_image unordered_def related_group_def
      set_shared_keys)

lemma partition_of_directory_groups:
  "partition_of (directory_groups key fs) =
     (\<lambda>d. (JStr (d @ ''-changes''),
            filter_mset (\<lambda>f. root_dir_of f = d) (unclaimed_of key (mset fs)),
            directory_group d [])) ` root_dir_of ` set_mset (unclaimed_of key (mset fs))"
proof -
  have "set (py_unique (map root_dir_of (unclaimed_files key fs))) =
        root_dir_of ` set_mset (unclaimed_of key (mset fs))"
    by (simp add: set_py_unique mset_unclaimed_files [symmetric])
  moreover have "\<And>d. mset (filter (\<lambda>f. root_dir_of f = d) (unclaimed_files key fs)) =
        filter_mset (\<lambda>f. root_dir_of f = d) (unclaimed_of key (mset fs))"
    by (simp add: mset_unclaimed_files [symmetric])
  ultimately show ?thesis
    by (simp add: partition_of_def directory_groups_def image_image unordered_def
        directory_group_def)
qed

lemma partition_of_empty: "(partition_of r = {}) = (r = [])"
  by (simp add: partition_of_def)

lemma partition_of_fallback_spec:
  "partition_of (fallback_spec key fs) = grouping_of_mset key (mset fs)"
proof (cases "entity_groups key fs @ directory_groups key fs = []")
  case True
  have "partition_of (entity_groups key fs @ directory_groups key fs) = {}"
    using True partition_of_empty [of "entity_groups key fs @ directory_groups key fs"] by blast
  then have e: "partition_of (entity_groups key fs) \<union> partition_of (directory_groups key fs) = {}"
    by (simp add: partition_of_append)
  have "fallback_spec key fs = [(JStr ''all-changes'', all_changes_group fs)]"
    using True by (simp add: fallback_spec_def)
  then have "partition_of (fallback_spec key fs) =
      {(JStr ''all-changes'', mset fs, all_changes_group [])}"
    by (simp add: partition_of_def unordered_def all_changes_group_def)
  with e show ?thesis
    unfolding grouping_of_mset_def Let_def
      partition_of_entity_groups partition_of_directory_groups
    by simp
next
  case False
  have "partition_of (entity_groups key fs @ directory_groups key fs) \<noteq> {}"
    using False partition_of_empty [of "entity_groups key fs @ directory_groups key fs"] by blast
  then have ne: "partition_of (entity_groups key fs) \<union> partition_of (directory_groups key fs) \<noteq> {}"
    by (simp add: partition_of_append)
  have "fallback_spec key fs = entity_groups key fs @ directory_groups key fs"
    using False by (simp add: fallback_spec_def)
  then have "partition_of (fallback_spec key fs) =
      partition_of (entity_groups key fs) \<union> partition_of (directory_groups key fs)"
    by (simp only: partition_of_append)
  with ne show ?thesis
    unfolding grouping_of_mset_def Let_def
      partition_of_entity_groups partition_of_directory_groups
    by simp
qed

text \<open>
  C5. For a rearrangement of the file list the function returns the same groups: the
  same names, each with the same files (as a multiset) and the same other fields. That
  two calls on the same list return the same value holds of every function of the model.
\<close>

theorem fallback_order_independent:
  assumes "mset fs = mset fs'"
  shows "partition_of (fallback_intelligent_grouping fs) =
         partition_of (fallback_intelligent_grouping fs')"
  using assms by (simp add: fallback_is_spec partition_of_fallback_spec)

lemma fallback_example_forward:
  "fallback_intelligent_grouping [''m/user.py'', ''t/test_user.py'', ''x/y.py'', ''README''] =
     [(JStr ''user-related'', related_group ''user'' [''m/user.py'', ''t/test_user.py'']),
      (JStr ''x-changes'', directory_group ''x'' [''x/y.py'']),
      (JStr ''root-changes'', directory_group ''root'' [''README''])]"
  by (simp add: fallback_is_spec fallback_spec_def entity_groups_def directory_groups_def
      shared_keys_def unclaimed_files_def key_examples2 root_dir_of_def os_sep_def)

lemma fallback_example_backward:
  "fallback_intelligent_grouping [''README'', ''x/y.py'', ''t/test_user.py'', ''m/user.py''] =
     [(JStr ''user-related'', related_group ''user'' [''t/test_user.py'', ''m/user.py'']),
      (JStr ''root-changes'', directory_group ''root'' [''README'']),
      (JStr ''x-changes'', directory_group ''x'' [''x/y.py''])]"
  by (simp add: fallback_is_spec fallback_spec_def entity_groups_def directory_groups_def
      shared_keys_def unclaimed_files_def key_examples2 root_dir_of_def os_sep_def)

lemma example_rearranged:
  "mset [''m/user.py'', ''t/test_user.py'', ''x/y.py'', ''README''] =
   mset [''README'', ''x/y.py'', ''t/test_user.py'', ''m/user.py'']"
  by (simp add: add_mset_commute)

theorem fallback_order_independent_witness:
  "mset [''m/user.py'', ''t/test_user.py'', ''x/y.py'', ''README''] =
   mset [''README'', ''x/y.py'', ''t/test_user.py'', ''m/user.py''] \<and>
   partition_of
     [(JStr ''user-related'', related_group ''user'' [''m/user.py'', ''t/test_user.py'']),
      (JStr ''x-changes'', directory_group ''x'' [''x/y.py'']),
      (JStr ''root-changes'', directory_group ''root'' [''README''])] =
   partition_of
     [(JStr ''user-related'', related_group ''user'' [''t/test_user.py'', ''m/user.py'']),
      (JStr ''root-changes'', directory_group ''root'' [''README'']),
      (JStr ''x-changes'', directory_group ''x'' [''x/y.py''])]"
  using fallback_order_independent [OF example_rearranged] example_rearranged
  by (simp only: fallback_example_forward fallback_example_backward simp_thms)

section \<open>Responses that are not a list of objects\<close>

text \<open>
  What the \<open>except\<close> clause catches: when \<open>json.loads\<close> raises JSONDecodeError, or
  the loop raises one of the three caught exceptions, the function returns the heuristic
  grouping.
\<close>

lemma parse_relation_groups_caught:
  "json_loads (clean_response ai_response) = None \<Longrightarrow>
   parse_relation_groups json_loads ai_response all_files =
     Inr (fallback_intelligent_grouping all_files)"
  "json_loads (clean_response ai_response) = Some groups_list \<Longrightarrow>
   build_groups groups_list all_files = Inl e \<Longrightarrow>
   e = JSONDecodeError \<or> e = KeyError \<or> e = TypeError \<Longrightarrow>
   parse_relation_groups json_loads ai_response all_files =
     Inr (fallback_intelligent_grouping all_files)"
  by (auto simp: parse_relation_groups_def)

lemma clean_response_example: "clean_response ''[1]'' = ''[1]''"
  by code_simp

text \<open>
  C2. The response \<open>[1]\<close> decodes to a list whose element is a number, not an object.
  \<open>group_data.get\<close> raises AttributeError on it, the \<open>except\<close> clause does not catch
  it, and the function raises it to its caller instead of returning the heuristic
  grouping.
\<close>

theorem parse_relation_groups_raises_attribute_error:
  "clean_response ''[1]'' = ''[1]'' \<and>
   parse_relation_groups (\<lambda>s. if s = ''[1]'' then Some (JArr [JInt 1]) else None)
     ''[1]'' [''a.py''] = Inl AttributeError \<and>
   fallback_intelligent_grouping [''a.py''] =
     [(JStr ''root-changes'', directory_group ''root'' [''a.py''])]"
proof (intro conjI)
  show "clean_response ''[1]'' = ''[1]''" by (rule clean_response_example)
  show "parse_relation_groups (\<lambda>s. if s = ''[1]'' then Some (JArr [JInt 1]) else None)
     ''[1]'' [''a.py''] = Inl AttributeError"
    by (simp add: parse_relation_groups_def clean_response_example build_groups_def
        process_group_def)
  have "entity_key ''a.py'' = ''a''" by code_simp
  then show "fallback_intelligent_grouping [''a.py''] =
     [(JStr ''root-changes'', directory_group ''root'' [''a.py''])]"
    by (simp add: fallback_is_spec fallback_spec_def entity_groups_def directory_groups_def
        shared_keys_def unclaimed_files_def root_dir_of_def os_sep_def)
qed

section \<open>Optional keys of a group object\<close>

text \<open>
  A group object with its optional keys written out, as the specification words the
  defaults: the name \<open>unknown\<close>, no files, the empty description, the type \<open>chore\<close>;
  the commit messages are the value of \<open>commit_messages\<close> unless that key is absent or
  its value is empty, and then the one-element list of the value of the old key
  \<open>commit_message\<close> when there is one that is not empty.
\<close>

definition legacy_commit_messages :: "(string \<times> json) list \<Rightarrow> json \<Rightarrow> json" where
  "legacy_commit_messages group_data commit_messages =
     (case map_of group_data ''commit_message'' of
        None \<Rightarrow> commit_messages
      | Some single_message \<Rightarrow>
          if truthy single_message then JArr [single_message] else commit_messages)"

definition with_defaults :: "(string \<times> json) list \<Rightarrow> (string \<times> json) list" where
  "with_defaults group_data =
     [(''group'', case map_of group_data ''group'' of None \<Rightarrow> JStr ''unknown'' | Some v \<Rightarrow> v),
      (''files'', case map_of group_data ''files'' of None \<Rightarrow> JArr [] | Some v \<Rightarrow> v),
      (''description'', case map_of group_data ''description'' of None \<Rightarrow> JStr [] | Some v \<Rightarrow> v),
      (''type'', case map_of group_data ''type'' of None \<Rightarrow> JStr ''chore'' | Some v \<Rightarrow> v),
      (''commit_messages'',
         case map_of group_data ''commit_messages'' of
           None \<Rightarrow> legacy_commit_messages group_data (JArr [])
         | Some v \<Rightarrow> if truthy v then v else legacy_commit_messages group_data v)]"

definition defaults_written_out :: "json \<Rightarrow> json" where
  "defaults_written_out groups_list =
     (case groups_list of
        JArr items \<Rightarrow>
          JArr (map (\<lambda>item. case item of JObj group_data \<Rightarrow> JObj (with_defaults group_data)
                                | _ \<Rightarrow> item) items)
      | _ \<Rightarrow> groups_list)"

lemma dict_get_with_defaults:
  "dict_get (with_defaults gd) ''group'' d1 = dict_get gd ''group'' (JStr ''unknown'')"
  "dict_get (with_defaults gd) ''files'' d2 = dict_get gd ''files'' (JArr [])"
  "dict_get (with_defaults gd) ''description'' d3 = dict_get gd ''description'' (JStr [])"
  "dict_get (with_defaults gd) ''type'' d4 = dict_get gd ''type'' (JStr ''chore'')"
  by (simp_all add: dict_get_def with_defaults_def split: option.split)

lemma read_commit_messages_with_defaults:
  "read_commit_messages (with_defaults gd) = read_commit_messages gd"
  by (auto simp: read_commit_messages_def dict_get_def with_defaults_def
      legacy_commit_messages_def Let_def split: option.splits)

lemma process_group_with_defaults:
  "process_group all_files (JObj (with_defaults gd)) st = process_group all_files (JObj gd) st"
  by (simp add: process_group_def dict_get_with_defaults read_commit_messages_with_defaults)

lemma groups_loop_with_defaults:
  "groups_loop all_files
     (map (\<lambda>item. case item of JObj group_data \<Rightarrow> JObj (with_defaults group_data) | _ \<Rightarrow> item)
        items) st =
   groups_loop all_files items st"
proof (induction items arbitrary: st)
  case Nil
  show ?case by simp
next
  case (Cons item items)
  have "process_group all_files
          (case item of JObj group_data \<Rightarrow> JObj (with_defaults group_data) | _ \<Rightarrow> item) st =
        process_group all_files item st"
    by (cases item) (simp_all add: process_group_with_defaults)
  with Cons show ?case by (simp split: sum.split)
qed

lemma build_groups_with_defaults:
  "build_groups (defaults_written_out groups_list) all_files = build_groups groups_list all_files"
  by (cases groups_list)
    (simp_all add: build_groups_def defaults_written_out_def groups_loop_with_defaults)

text \<open>
  C10. \<open>parse_relation_groups\<close> treats every group object as the same object with the
  defaults written out: whatever \<open>json.loads\<close> decodes, the result is the one for the
  decoded value with the optional keys of its group objects filled in. An object that
  has only \<open>files\<close> and the old key \<open>commit_message\<close> becomes a group \<open>unknown\<close> of type
  \<open>chore\<close> with the empty description and the one message as its list.
\<close>

theorem parse_relation_groups_defaults:
  "parse_relation_groups (\<lambda>s. map_option defaults_written_out (json_loads s))
     ai_response all_files =
   parse_relation_groups json_loads ai_response all_files \<and>
   with_defaults [(''files'', JArr [JStr ''a.py'']), (''commit_message'', JStr ''fix: a'')] =
     [(''group'', JStr ''unknown''), (''files'', JArr [JStr ''a.py'']),
      (''description'', JStr ''''), (''type'', JStr ''chore''),
      (''commit_messages'', JArr [JStr ''fix: a''])] \<and>
   parse_relation_groups
     (\<lambda>s. Some (JArr [JObj [(''files'', JArr [JStr ''a.py'']),
                             (''commit_message'', JStr ''fix: a'')]]))
     ai_response [''a.py''] =
     Inr [(JStr ''unknown'',
           \<lparr>group_files = [''a.py''], group_description = JStr '''',
            group_type = JStr ''chore'', group_emoji = Wrench,
            group_commit_messages = JArr [JStr ''fix: a'']\<rparr>)]"
proof (intro conjI)
  show "parse_relation_groups (\<lambda>s. map_option defaults_written_out (json_loads s))
     ai_response all_files =
   parse_relation_groups json_loads ai_response all_files"
    by (cases "json_loads (clean_response ai_response)")
      (simp_all add: parse_relation_groups_def build_groups_with_defaults)
  show "with_defaults [(''files'', JArr [JStr ''a.py'']), (''commit_message'', JStr ''fix: a'')] =
     [(''group'', JStr ''unknown''), (''files'', JArr [JStr ''a.py'']),
      (''description'', JStr ''''), (''type'', JStr ''chore''),
      (''commit_messages'', JArr [JStr ''fix: a''])]"
    by (simp add: with_defaults_def legacy_commit_messages_def)
  show "parse_relation_groups
     (\<lambda>s. Some (JArr [JObj [(''files'', JArr [JStr ''a.py'']),
                             (''commit_message'', JStr ''fix: a'')]]))
     ai_response [''a.py''] =
     Inr [(JStr ''unknown'',
           \<lparr>group_files = [''a.py''], group_description = JStr '''',
            group_type = JStr ''chore'', group_emoji = Wrench,
            group_commit_messages = JArr [JStr ''fix: a'']\<rparr>)]"
    by (simp add: parse_relation_groups_def build_groups_def process_group_def dict_get_def
        read_commit_messages_def emoji_for_def type_emoji_def unique_name_loop.simps
        dict_contains_def)
qed

section \<open>Names of the parsed groups\<close>

lemma unique_name_loop_free:
  "\<not> dict_contains group_name result \<Longrightarrow>
   unique_name_loop result base_name counter group_name = group_name"
  by (subst unique_name_loop.simps) simp

lemma unique_name_loop_step:
  "dict_contains group_name result \<Longrightarrow>
   unique_name_loop result base_name counter group_name =
   unique_name_loop result base_name (counter + 1) (suffixed base_name counter)"
  by (subst unique_name_loop.simps) simp

lemma unique_name_loop_fresh:
  "\<not> dict_contains (unique_name_loop result base_name counter group_name) result"
proof (induction result base_name counter group_name rule: unique_name_loop.induct)
  case (1 result base_name counter group_name)
  show ?case
  proof (cases "dict_contains group_name result")
    case True
    with 1 show ?thesis by (simp add: unique_name_loop_step)
  next
    case False
    then show ?thesis by (simp add: unique_name_loop_free)
  qed
qed

lemma unique_name_loop_taken:
  "dict_contains group_name result \<Longrightarrow>
   \<exists>k\<ge>counter. unique_name_loop result base_name counter group_name = suffixed base_name k \<and>
      (\<forall>j. counter \<le> j \<and> j < k \<longrightarrow> dict_contains (suffixed base_name j) result)"
proof (induction result base_name counter group_name rule: unique_name_loop.induct)
  case (1 result base_name counter group_name)
  note step = unique_name_loop_step [OF "1.prems", of base_name counter]
  show ?case
  proof (cases "dict_contains (suffixed base_name counter) result")
    case True
    from "1.IH" [OF "1.prems" True] obtain k where k: "counter + 1 \<le> k"
      "unique_name_loop result base_name (counter + 1) (suffixed base_name counter) =
         suffixed base_name k"
      "\<forall>j. counter + 1 \<le> j \<and> j < k \<longrightarrow> dict_contains (suffixed base_name j) result"
      by blast
    have "\<forall>j. counter \<le> j \<and> j < k \<longrightarrow> dict_contains (suffixed base_name j) result"
    proof (intro allI impI)
      fix j assume j: "counter \<le> j \<and> j < k"
      show "dict_contains (suffixed base_name j) result"
      proof (cases "j = counter")
        case True
        with \<open>dict_contains (suffixed base_name counter) result\<close> show ?thesis by simp
      next
        case False
        with j have "counter + 1 \<le> j \<and> j < k" by simp
        with k(3) show ?thesis by blast
      qed
    qed
    moreover have "counter \<le> k" using k(1) by simp
    ultimately show ?thesis using k(2) step by auto
  next
    case False
    then have "unique_name_loop result base_name (counter + 1) (suffixed base_name counter) =
        suffixed base_name counter"
      by (rule unique_name_loop_free)
    with step show ?thesis by auto
  qed
qed

lemma py_key_eq_sym: "py_key_eq a b = py_key_eq b a"
  by (cases a; cases b) auto

lemma py_key_eq_refl: "hashable k \<Longrightarrow> py_key_eq k k"
  by (cases k) auto

lemma hashable_unique_name:
  "hashable group_name \<Longrightarrow> hashable (unique_name_loop result base_name counter group_name)"
proof (cases "dict_contains group_name result")
  case True
  from unique_name_loop_taken [OF True, where base_name = base_name and counter = counter]
  show ?thesis by (auto simp: suffixed_def)
next
  case False
  assume "hashable group_name"
  with False show ?thesis by (simp add: unique_name_loop_free)
qed

text \<open>No two keys of the dictionary are equal, as Python compares them.\<close>

fun keys_unique :: "groups \<Rightarrow> bool" where
  "keys_unique [] = True"
| "keys_unique (kv # rest) = (\<not> dict_contains (fst kv) rest \<and> keys_unique rest)"

lemma keys_unique_append:
  "keys_unique (d @ [(k, v)]) = (keys_unique d \<and> \<not> dict_contains k d)"
  by (induction d) (auto simp: dict_contains_def py_key_eq_sym)

lemma map_fst_dict_set:
  "map fst (dict_set k v d) = (if dict_contains k d then map fst d else map fst d @ [k])"
  by (induction d) (auto simp: dict_contains_def)

lemma dict_contains_keys:
  "map fst d = map fst d' \<Longrightarrow> dict_contains k d = dict_contains k d'"
  by (metis dict_contains_iff set_map)

lemma keys_unique_keys:
  "map fst d = map fst d' \<Longrightarrow> keys_unique d = keys_unique d'"
proof (induction d arbitrary: d')
  case Nil
  then show ?case by simp
next
  case (Cons kv d)
  then obtain kv' d'' where d': "d' = kv' # d''" by (cases d') auto
  with Cons.prems have "fst kv = fst kv'" "map fst d = map fst d''" by simp_all
  with Cons.IH [of d''] dict_contains_keys [of d d''] d' show ?case by simp
qed

lemma keys_unique_dict_set:
  "keys_unique d \<Longrightarrow> keys_unique (dict_set k v d)"
proof (cases "dict_contains k d")
  case True
  assume "keys_unique d"
  moreover have "map fst (dict_set k v d) = map fst d" using True by (simp add: map_fst_dict_set)
  ultimately show ?thesis using keys_unique_keys by blast
next
  case False
  assume "keys_unique d"
  with False show ?thesis by (simp add: dict_set_new keys_unique_append)
qed

lemma not_contains_not_key:
  "\<not> dict_contains k d \<Longrightarrow> hashable k \<Longrightarrow> k \<notin> fst ` set d"
  by (auto simp: dict_contains_iff py_key_eq_refl)

lemma find_in_set: "find P xs = Some x \<Longrightarrow> x \<in> set xs"
  by (induction xs) (auto split: if_splits)

lemma validate_files_subset:
  "validate_files fs all_files acc = Inr vf \<Longrightarrow> set vf \<subseteq> set acc \<union> set all_files"
proof (induction fs arbitrary: acc)
  case Nil
  then show ?case by auto
next
  case (Cons f fs)
  show ?case
  proof (cases f)
    case (JStr s)
    show ?thesis
    proof (cases "s \<in> set all_files")
      case True
      with Cons.prems JStr have "validate_files fs all_files (acc @ [s]) = Inr vf" by simp
      from Cons.IH [OF this] True show ?thesis by auto
    next
      case False
      note notin = False
      show ?thesis
      proof (cases "find (\<lambda>actual_file. normpath actual_file = normpath s \<or>
                                   py_endswith actual_file s \<or> py_endswith s actual_file)
                           all_files")
        case None
        with Cons.prems JStr notin have "validate_files fs all_files acc = Inr vf" by simp
        from Cons.IH [OF this] show ?thesis .
      next
        case (Some a)
        with Cons.prems JStr notin have "validate_files fs all_files (acc @ [a]) = Inr vf" by simp
        from Cons.IH [OF this] find_in_set [OF Some] show ?thesis by auto
      qed
    qed
  qed (use Cons.prems in simp_all)
qed

text \<open>
  One round of the loop that returns either leaves the state as it is or adds one group
  at the end of the dictionary, under the name the renaming loop finds.
\<close>

lemma process_group_Inr:
  assumes "process_group all_files group_data (result, grouped) = Inr (result', grouped')"
  shows "(result' = result \<and> grouped' = grouped) \<or>
     (\<exists>gd g. group_data = JObj gd \<and>
        hashable (dict_get gd ''group'' (JStr ''unknown'')) \<and>
        result' = result @
          [(unique_name_loop result (dict_get gd ''group'' (JStr ''unknown'')) 1
              (dict_get gd ''group'' (JStr ''unknown'')), g)] \<and>
        group_files g \<noteq> [] \<and> distinct (group_files g) \<and>
        set (group_files g) \<subseteq> set all_files \<and>
        grouped' = grouped \<union> set (group_files g))"
proof (cases group_data)
  case (JObj gd)
  define base where "base = dict_get gd ''group'' (JStr ''unknown'')"
  show ?thesis
  proof (cases "py_iter (dict_get gd ''files'' (JArr []))")
    case (Inl e)
    with assms JObj show ?thesis by (simp add: process_group_def)
  next
    case (Inr fs)
    note it = Inr
    show ?thesis
    proof (cases "validate_files fs all_files []")
      case (Inl e)
      with assms JObj it show ?thesis by (simp add: process_group_def)
    next
      case (Inr vf)
      note vf = Inr
      from validate_files_subset [OF vf] have sub: "set (py_unique vf) \<subseteq> set all_files"
        by (simp add: set_py_unique)
      show ?thesis
      proof (cases "py_unique vf = []")
        case True
        with assms JObj it vf show ?thesis by (simp add: process_group_def)
      next
        case False
        note ne = False
        show ?thesis
        proof (cases "hashable base")
          case False
          with assms JObj it vf ne show ?thesis by (simp add: process_group_def base_def)
        next
          case True
          note hb = True
          show ?thesis
          proof (cases "emoji_for (dict_get gd ''type'' (JStr ''chore''))")
            case (Inl e)
            with assms JObj it vf ne hb show ?thesis
              by (simp add: process_group_def base_def)
          next
            case (Inr em)
            define g where "g = \<lparr>group_files = py_unique vf,
                group_description = dict_get gd ''description'' (JStr []),
                group_type = dict_get gd ''type'' (JStr ''chore''),
                group_emoji = em,
                group_commit_messages = read_commit_messages gd\<rparr>"
            from assms JObj it vf ne hb Inr
            have "result' = dict_set (unique_name_loop result base 1 base) g result"
              and gr: "grouped' = grouped \<union> set (py_unique vf)"
              by (simp_all add: process_group_def base_def g_def Let_def)
            then have "result' = result @ [(unique_name_loop result base 1 base, g)]"
              by (simp add: dict_set_new unique_name_loop_fresh)
            moreover have "group_files g = py_unique vf" by (simp add: g_def)
            ultimately show ?thesis
              using JObj hb ne sub gr distinct_py_unique [of vf] unfolding base_def by auto
          qed
        qed
      qed
    qed
  qed
qed (use assms in \<open>simp_all add: process_group_def\<close>)

lemma groups_loop_snoc:
  "groups_loop all_files (items @ [item]) st =
     (case groups_loop all_files items st of
        Inl e \<Rightarrow> Inl e
      | Inr st' \<Rightarrow> process_group all_files item st')"
  by (induction items arbitrary: st) (auto split: sum.splits)

text \<open>What holds before the loop and is kept by every round that returns holds after it.\<close>

lemma groups_loop_invariant:
  assumes "groups_loop all_files items st = Inr st'"
    and "P st"
    and "\<And>item s s'. item \<in> set items \<Longrightarrow> P s \<Longrightarrow>
           process_group all_files item s = Inr s' \<Longrightarrow> P s'"
  shows "P st'"
  using assms
proof (induction items arbitrary: st)
  case Nil
  then show ?case by simp
next
  case (Cons item items)
  from Cons.prems(1) obtain s where s: "process_group all_files item st = Inr s"
    and rest: "groups_loop all_files items s = Inr st'"
    by (auto split: sum.splits)
  have "P s" using Cons.prems(3) [OF _ Cons.prems(2) s] by simp
  show ?case
  proof (rule Cons.IH [OF rest \<open>P s\<close>])
    fix item' s1 s2
    assume "item' \<in> set items" "P s1" "process_group all_files item' s1 = Inr s2"
    then show "P s2" using Cons.prems(3) [of item' s1 s2] by simp
  qed
qed

lemma groups_loop_names:
  assumes "groups_loop all_files items (result, grouped) = Inr (result', grouped')"
    and "keys_unique result" and "distinct (map fst result)"
  shows "keys_unique result' \<and> distinct (map fst result')"
proof -
  have "keys_unique (fst (result', grouped')) \<and> distinct (map fst (fst (result', grouped')))"
  proof (rule groups_loop_invariant
      [where P = "\<lambda>s. keys_unique (fst s) \<and> distinct (map fst (fst s))", OF assms(1)])
    show "keys_unique (fst (result, grouped)) \<and> distinct (map fst (fst (result, grouped)))"
      using assms(2,3) by simp
  next
    fix item s s'
    assume inv: "keys_unique (fst s) \<and> distinct (map fst (fst s))"
      and step: "process_group all_files item s = Inr s'"
    obtain r gr where s: "s = (r, gr)" by (cases s)
    obtain r' gr' where s': "s' = (r', gr')" by (cases s')
    from process_group_Inr [OF step [unfolded s s']]
    show "keys_unique (fst s') \<and> distinct (map fst (fst s'))"
    proof
      assume "r' = r \<and> gr' = gr"
      with inv s s' show ?thesis by simp
    next
      assume "\<exists>gd g. item = JObj gd \<and>
        hashable (dict_get gd ''group'' (JStr ''unknown'')) \<and>
        r' = r @
          [(unique_name_loop r (dict_get gd ''group'' (JStr ''unknown'')) 1
              (dict_get gd ''group'' (JStr ''unknown'')), g)] \<and>
        group_files g \<noteq> [] \<and> distinct (group_files g) \<and>
        set (group_files g) \<subseteq> set all_files \<and>
        gr' = gr \<union> set (group_files g)"
      then obtain gd g where h: "hashable (dict_get gd ''group'' (JStr ''unknown''))"
        and r': "r' = r @
          [(unique_name_loop r (dict_get gd ''group'' (JStr ''unknown'')) 1
              (dict_get gd ''group'' (JStr ''unknown'')), g)]"
        by blast
      define name where "name = unique_name_loop r (dict_get gd ''group'' (JStr ''unknown'')) 1
              (dict_get gd ''group'' (JStr ''unknown''))"
      have fresh: "\<not> dict_contains name r" unfolding name_def by (rule unique_name_loop_fresh)
      have "hashable name" unfolding name_def using h by (rule hashable_unique_name)
      with fresh have "name \<notin> fst ` set r" by (rule not_contains_not_key)
      moreover have "r' = r @ [(name, g)]" using r' by (simp add: name_def)
      ultimately show ?thesis using fresh inv s s' by (simp add: keys_unique_append)
    qed
  qed
  then show ?thesis by simp
qed

lemma groups_loop_length:
  "groups_loop all_files items st = Inr st' \<Longrightarrow>
   length (fst st') \<le> length (fst st) + length items"
proof (induction items arbitrary: st' rule: rev_induct)
  case Nil
  then show ?case by simp
next
  case (snoc item items)
  from snoc.prems obtain s where s: "groups_loop all_files items st = Inr s"
    and step: "process_group all_files item s = Inr st'"
    by (auto simp: groups_loop_snoc split: sum.splits)
  obtain r gr where sp: "s = (r, gr)" by (cases s)
  obtain r' gr' where sp': "st' = (r', gr')" by (cases st')
  from process_group_Inr [OF step [unfolded sp sp']]
  have "length r' \<le> length r + 1" by auto
  with snoc.IH [OF s] sp sp' show ?case by simp
qed

lemma keys_unique_JStr:
  "\<forall>k\<in>fst ` set r. \<exists>s. k = JStr s \<Longrightarrow> keys_unique r = distinct (map fst r)"
proof (induction r)
  case Nil
  show ?case by simp
next
  case (Cons kv r)
  from Cons.prems obtain s where s: "fst kv = JStr s" by auto
  from Cons.prems have "\<forall>k\<in>fst ` set r. \<exists>s. k = JStr s" by simp
  from Cons.IH [OF this] s show ?case by (simp add: dict_contains_JStr)
qed

lemma map_fst_fallback_spec:
  "map fst (fallback_spec key fs) =
     (if shared_keys key fs = [] \<and> unclaimed_files key fs = [] then [JStr ''all-changes'']
      else map (\<lambda>e. JStr (e @ ''-related'')) (shared_keys key fs) @
           map (\<lambda>d. JStr (d @ ''-changes''))
             (py_unique (map root_dir_of (unclaimed_files key fs))))"
proof -
  have "(py_unique (map root_dir_of (unclaimed_files key fs)) = []) =
        (unclaimed_files key fs = [])"
    by (metis set_py_unique set_empty map_is_Nil_conv)
  then show ?thesis
    by (simp add: fallback_spec_def entity_groups_def directory_groups_def comp_def)
qed

lemma fallback_names_distinct: "distinct (map fst (fallback_intelligent_grouping fs))"
proof -
  have a: "distinct (shared_keys entity_key fs)"
    by (simp add: shared_keys_def distinct_py_unique)
  have b: "distinct (py_unique (map root_dir_of (unclaimed_files entity_key fs)))"
    by (rule distinct_py_unique)
  have "distinct (map (\<lambda>e. JStr (e @ ''-related'')) (shared_keys entity_key fs))"
    using a by (simp add: distinct_map inj_on_def)
  moreover have "distinct (map (\<lambda>d. JStr (d @ ''-changes''))
      (py_unique (map root_dir_of (unclaimed_files entity_key fs))))"
    using b by (simp add: distinct_map inj_on_def)
  ultimately show ?thesis
    by (auto simp: fallback_is_spec map_fst_fallback_spec related_not_changes)
qed

lemma fallback_names_strings:
  "\<forall>k\<in>fst ` set (fallback_intelligent_grouping fs). \<exists>s. k = JStr s"
proof -
  have "set (map fst (fallback_intelligent_grouping fs)) \<subseteq> range JStr"
    by (auto simp: fallback_is_spec map_fst_fallback_spec)
  then show ?thesis by auto
qed

lemma fallback_keys_unique: "keys_unique (fallback_intelligent_grouping fs)"
  using keys_unique_JStr [OF fallback_names_strings] fallback_names_distinct by simp

text \<open>A result that \<open>parse_relation_groups\<close> returns is the fallback or what the loop built.\<close>

lemma parse_relation_groups_Inr:
  assumes "parse_relation_groups json_loads ai_response all_files = Inr r"
  shows "r = fallback_intelligent_grouping all_files \<or>
     (\<exists>groups_list. json_loads (clean_response ai_response) = Some groups_list \<and>
        build_groups groups_list all_files = Inr r)"
  using assms
  by (auto simp: parse_relation_groups_def split: option.splits sum.splits if_splits)

lemma build_groups_Inr:
  assumes "build_groups groups_list all_files = Inr r"
  shows "\<exists>items result grouped. py_iter groups_list = Inr items \<and>
     groups_loop all_files items ([], {}) = Inr (result, grouped) \<and>
     r = (if filter (\<lambda>f. f \<notin> grouped) all_files \<noteq> []
          then dict_set (JStr ''miscellaneous-changes'')
                 (miscellaneous_group (filter (\<lambda>f. f \<notin> grouped) all_files)) result
          else result)"
proof (cases "py_iter groups_list")
  case (Inl e)
  with assms show ?thesis by (simp add: build_groups_def)
next
  case (Inr items)
  note it = Inr
  show ?thesis
  proof (cases "groups_loop all_files items ([], {})")
    case (Inl e)
    with assms it show ?thesis by (simp add: build_groups_def)
  next
    case (Inr st)
    obtain result grouped where st: "st = (result, grouped)" by (cases st)
    from assms it Inr st
    have "r = (if filter (\<lambda>f. f \<notin> grouped) all_files \<noteq> []
          then dict_set (JStr ''miscellaneous-changes'')
                 (miscellaneous_group (filter (\<lambda>f. f \<notin> grouped) all_files)) result
          else result)"
      by (auto simp: build_groups_def Let_def split: if_splits)
    with it Inr st show ?thesis by blast
  qed
qed

lemma distinct_dict_set:
  assumes "distinct (map fst d)" and "hashable k"
  shows "distinct (map fst (dict_set k v d))"
proof (cases "dict_contains k d")
  case True
  with assms show ?thesis by (simp add: map_fst_dict_set)
next
  case False
  from not_contains_not_key [OF False assms(2)] False assms show ?thesis
    by (simp add: map_fst_dict_set)
qed

lemma build_groups_names:
  assumes "build_groups groups_list all_files = Inr r"
  shows "keys_unique r \<and> distinct (map fst r)"
proof -
  from build_groups_Inr [OF assms] obtain items result grouped where
    loop: "groups_loop all_files items ([], {}) = Inr (result, grouped)"
    and r: "r = (if filter (\<lambda>f. f \<notin> grouped) all_files \<noteq> []
          then dict_set (JStr ''miscellaneous-changes'')
                 (miscellaneous_group (filter (\<lambda>f. f \<notin> grouped) all_files)) result
          else result)"
    by blast
  from groups_loop_names [OF loop] have "keys_unique result \<and> distinct (map fst result)" by simp
  with r show ?thesis by (simp add: keys_unique_dict_set distinct_dict_set)
qed

lemma parse_relation_groups_names:
  assumes "parse_relation_groups json_loads ai_response all_files = Inr r"
  shows "keys_unique r \<and> distinct (map fst r)"
  using parse_relation_groups_Inr [OF assms] build_groups_names
    fallback_keys_unique fallback_names_distinct by blast

lemma suffixed_JStr: "suffixed (JStr x) i = JStr (x @ ''-'' @ string_of_nat i)"
  by (simp add: suffixed_def)

lemma same_name_keys:
  assumes "groups_loop all_files items ([], {}) = Inr (result, grouped)"
    and "length result = length items"
    and "\<forall>item\<in>set items. \<exists>gd. item = JObj gd \<and>
           dict_get gd ''group'' (JStr ''unknown'') = JStr x"
  shows "map fst result =
         map (\<lambda>i. if i = 0 then JStr x else JStr (x @ ''-'' @ string_of_nat i))
           [0..<length items]"
  using assms
proof (induction items arbitrary: result grouped rule: rev_induct)
  case Nil
  then show ?case by simp
next
  case (snoc item items)
  define nm where "nm = (\<lambda>i. if i = 0 then JStr x else JStr (x @ ''-'' @ string_of_nat i))"
  define n where "n = length items"
  from snoc.prems(1) obtain s where s: "groups_loop all_files items ([], {}) = Inr s"
    and step: "process_group all_files item s = Inr (result, grouped)"
    by (auto simp: groups_loop_snoc split: sum.splits)
  obtain r0 g0 where sp: "s = (r0, g0)" by (cases s)
  from groups_loop_length [OF s] sp have le: "length r0 \<le> n" by (simp add: n_def)
  from snoc.prems(2) have len: "length result = n + 1" by (simp add: n_def)
  from snoc.prems(3) obtain gd0 where item: "item = JObj gd0"
    and base: "dict_get gd0 ''group'' (JStr ''unknown'') = JStr x" by auto
  from process_group_Inr [OF step [unfolded sp]] le len
  obtain gd g where "item = JObj gd"
    and res: "result = r0 @
          [(unique_name_loop r0 (dict_get gd ''group'' (JStr ''unknown'')) 1
              (dict_get gd ''group'' (JStr ''unknown'')), g)]"
    by auto
  with item base have res': "result = r0 @ [(unique_name_loop r0 (JStr x) 1 (JStr x), g)]"
    by simp
  with len have len0: "length r0 = n" by simp
  have "map fst r0 = map nm [0..<n]"
    unfolding nm_def n_def
    by (rule snoc.IH [OF s [unfolded sp]]) (use len0 snoc.prems(3) in \<open>simp_all add: n_def\<close>)
  then have keys: "fst ` set r0 = nm ` {0..<n}"
    by (metis set_map atLeastLessThan_upt)
  have taken: "dict_contains (suffixed (JStr x) j) r0 = (1 \<le> j \<and> j < n)" for j
  proof -
    have "dict_contains (suffixed (JStr x) j) r0 = (suffixed (JStr x) j \<in> nm ` {0..<n})"
      by (simp add: suffixed_JStr dict_contains_JStr keys)
    also have "\<dots> = (\<exists>i. i < n \<and> suffixed (JStr x) j = nm i)" by auto
    also have "\<dots> = (\<exists>i. i < n \<and> 0 < i \<and> j = i)"
    proof -
      have "(suffixed (JStr x) j = nm i) = (0 < i \<and> j = i)" for i
      proof (cases "i = 0")
        case True
        then show ?thesis by (simp add: nm_def suffixed_JStr)
      next
        case False
        then have "nm i = suffixed (JStr x) i" by (simp add: nm_def suffixed_JStr)
        with False show ?thesis using suffixed_inj [of "JStr x" j i] by auto
      qed
      then show ?thesis by simp
    qed
    also have "\<dots> = (1 \<le> j \<and> j < n)" by auto
    finally show ?thesis .
  qed
  have name: "unique_name_loop r0 (JStr x) 1 (JStr x) = nm n"
  proof (cases "n = 0")
    case True
    with len0 have "r0 = []" by simp
    then have "\<not> dict_contains (JStr x) r0" by (simp add: dict_contains_def)
    then show ?thesis using True by (simp add: unique_name_loop_free nm_def)
  next
    case False
    then have "nm 0 \<in> nm ` {0..<n}" by auto
    then have "dict_contains (JStr x) r0" by (simp add: dict_contains_JStr keys nm_def)
    from unique_name_loop_taken [OF this, where base_name = "JStr x" and counter = 1]
    obtain k where k: "1 \<le> k" "unique_name_loop r0 (JStr x) 1 (JStr x) = suffixed (JStr x) k"
      "\<forall>j. 1 \<le> j \<and> j < k \<longrightarrow> dict_contains (suffixed (JStr x) j) r0"
      by blast
    have "\<not> dict_contains (suffixed (JStr x) k) r0"
      using unique_name_loop_fresh [of r0 "JStr x" 1 "JStr x"] k(2) by simp
    with taken k(1) have "n \<le> k" by simp
    moreover have "\<not> n < k"
    proof
      assume "n < k"
      with False k(3) have "dict_contains (suffixed (JStr x) n) r0" by simp
      with taken show False by simp
    qed
    ultimately have "k = n" by simp
    with k(2) False show ?thesis by (simp add: nm_def suffixed_JStr)
  qed
  have "map fst result = map nm [0..<n] @ [nm n]"
    using res' name \<open>map fst r0 = map nm [0..<n]\<close> by simp
  then show ?case by (simp add: nm_def n_def)
qed

lemma build_groups_keys_prefix:
  assumes "groups_loop all_files items ([], {}) = Inr (result, grouped)"
  shows "\<exists>r. build_groups (JArr items) all_files = Inr r \<and>
             take (length result) (map fst r) = map fst result"
  using assms by (simp add: build_groups_def Let_def map_fst_dict_set)

text \<open>
  C7. A round of the loop that accepts a group adds it at the end of the result, under
  a name that is not in the result yet: the name of the group when that is free, else
  the name with the suffix \<open>-k\<close> for the least \<open>k\<close> from 1 on whose suffixed name is free.
  So a response whose groups are all accepted and all named \<open>x\<close> gives the names \<open>x\<close>,
  \<open>x-1\<close>, \<open>x-2\<close> and so on, in the order of the groups (a group for the files left
  over may follow). The names of every result that \<open>parse_relation_groups\<close> returns
  are pairwise different.
\<close>

theorem parse_relation_groups_unique_names:
  "(process_group all_files group_data (result, grouped) = Inr (result', grouped') \<longrightarrow>
      result' = result \<or>
      (\<exists>gd g name. group_data = JObj gd \<and> result' = result @ [(name, g)] \<and>
         \<not> dict_contains name result \<and>
         (if dict_contains (dict_get gd ''group'' (JStr ''unknown'')) result
          then \<exists>k\<ge>1. name = suffixed (dict_get gd ''group'' (JStr ''unknown'')) k \<and>
                 (\<forall>j. 1 \<le> j \<and> j < k \<longrightarrow>
                    dict_contains (suffixed (dict_get gd ''group'' (JStr ''unknown'')) j) result)
          else name = dict_get gd ''group'' (JStr ''unknown'')))) \<and>
   (json_loads (clean_response ai_response) = Some (JArr items) \<and>
    groups_loop all_files items ([], {}) = Inr (accepted, grouped_files) \<and>
    length accepted = length items \<and>
    (\<forall>item\<in>set items. \<exists>gd. item = JObj gd \<and>
        dict_get gd ''group'' (JStr ''unknown'') = JStr x) \<longrightarrow>
    (\<exists>r. parse_relation_groups json_loads ai_response all_files = Inr r \<and>
         take (length items) (map fst r) =
           map (\<lambda>i. if i = 0 then JStr x else JStr (x @ ''-'' @ string_of_nat i))
             [0..<length items])) \<and>
   (parse_relation_groups json_loads ai_response all_files = Inr r \<longrightarrow>
      keys_unique r \<and> distinct (map fst r))"
proof (intro conjI impI)
  assume step: "process_group all_files group_data (result, grouped) = Inr (result', grouped')"
  from process_group_Inr [OF step]
  show "result' = result \<or>
      (\<exists>gd g name. group_data = JObj gd \<and> result' = result @ [(name, g)] \<and>
         \<not> dict_contains name result \<and>
         (if dict_contains (dict_get gd ''group'' (JStr ''unknown'')) result
          then \<exists>k\<ge>1. name = suffixed (dict_get gd ''group'' (JStr ''unknown'')) k \<and>
                 (\<forall>j. 1 \<le> j \<and> j < k \<longrightarrow>
                    dict_contains (suffixed (dict_get gd ''group'' (JStr ''unknown'')) j) result)
          else name = dict_get gd ''group'' (JStr ''unknown'')))"
  proof
    assume "result' = result \<and> grouped' = grouped"
    then show ?thesis by simp
  next
    assume "\<exists>gd g. group_data = JObj gd \<and>
        hashable (dict_get gd ''group'' (JStr ''unknown'')) \<and>
        result' = result @
          [(unique_name_loop result (dict_get gd ''group'' (JStr ''unknown'')) 1
              (dict_get gd ''group'' (JStr ''unknown'')), g)] \<and>
        group_files g \<noteq> [] \<and> distinct (group_files g) \<and>
        set (group_files g) \<subseteq> set all_files \<and>
        grouped' = grouped \<union> set (group_files g)"
    then obtain gd g where gd: "group_data = JObj gd"
      and res: "result' = result @
          [(unique_name_loop result (dict_get gd ''group'' (JStr ''unknown'')) 1
              (dict_get gd ''group'' (JStr ''unknown'')), g)]"
      by blast
    define base where "base = dict_get gd ''group'' (JStr ''unknown'')"
    define name where "name = unique_name_loop result base 1 base"
    have fresh: "\<not> dict_contains name result"
      unfolding name_def by (rule unique_name_loop_fresh)
    have form: "if dict_contains base result
          then \<exists>k\<ge>1. name = suffixed base k \<and>
                 (\<forall>j. 1 \<le> j \<and> j < k \<longrightarrow> dict_contains (suffixed base j) result)
          else name = base"
    proof (cases "dict_contains base result")
      case True
      from unique_name_loop_taken [OF True, where base_name = base and counter = 1] True
      show ?thesis by (simp add: name_def)
    next
      case False
      then show ?thesis by (simp add: name_def unique_name_loop_free)
    qed
    have "result' = result @ [(name, g)]" using res by (simp add: name_def base_def)
    with gd fresh form show ?thesis unfolding base_def by blast
  qed
next
  assume h: "json_loads (clean_response ai_response) = Some (JArr items) \<and>
    groups_loop all_files items ([], {}) = Inr (accepted, grouped_files) \<and>
    length accepted = length items \<and>
    (\<forall>item\<in>set items. \<exists>gd. item = JObj gd \<and>
        dict_get gd ''group'' (JStr ''unknown'') = JStr x)"
  then have keys: "map fst accepted =
      map (\<lambda>i. if i = 0 then JStr x else JStr (x @ ''-'' @ string_of_nat i)) [0..<length items]"
    using same_name_keys [of all_files items accepted grouped_files x] by blast
  from h build_groups_keys_prefix [of all_files items accepted grouped_files]
  obtain r where r: "build_groups (JArr items) all_files = Inr r"
    and pre: "take (length items) (map fst r) = map fst accepted"
    by auto
  from h r have "parse_relation_groups json_loads ai_response all_files = Inr r"
    by (simp add: parse_relation_groups_def)
  with pre keys
  show "\<exists>r. parse_relation_groups json_loads ai_response all_files = Inr r \<and>
         take (length items) (map fst r) =
           map (\<lambda>i. if i = 0 then JStr x else JStr (x @ ''-'' @ string_of_nat i))
             [0..<length items]"
    by auto
next
  assume "parse_relation_groups json_loads ai_response all_files = Inr r"
  then show "keys_unique r" "distinct (map fst r)"
    using parse_relation_groups_names by blast+
qed

lemma string_of_nat_digits:
  "string_of_nat 1 = ''1''" "string_of_nat 2 = ''2''"
  "string_of_nat (Suc 0) = ''1''" "string_of_nat (Suc (Suc 0)) = ''2''"
  by (simp_all add: string_of_nat_small)

lemma same_name_round:
  "\<exists>grouped'. process_group [''a.py'', ''b.py'', ''c.py'']
     (JObj [(''group'', JStr ''x''), (''files'', JArr [JStr ''c.py''])])
     ([(JStr ''x'', \<lparr>group_files = [''a.py''], group_description = JStr '''',
                      group_type = JStr ''chore'', group_emoji = Wrench,
                      group_commit_messages = JArr []\<rparr>),
       (JStr ''x-1'', \<lparr>group_files = [''b.py''], group_description = JStr '''',
                        group_type = JStr ''chore'', group_emoji = Wrench,
                        group_commit_messages = JArr []\<rparr>)],
      {''a.py'', ''b.py''}) =
   Inr ([(JStr ''x'', \<lparr>group_files = [''a.py''], group_description = JStr '''',
                         group_type = JStr ''chore'', group_emoji = Wrench,
                         group_commit_messages = JArr []\<rparr>),
         (JStr ''x-1'', \<lparr>group_files = [''b.py''], group_description = JStr '''',
                           group_type = JStr ''chore'', group_emoji = Wrench,
                           group_commit_messages = JArr []\<rparr>),
         (JStr ''x-2'', \<lparr>group_files = [''c.py''], group_description = JStr '''',
                           group_type = JStr ''chore'', group_emoji = Wrench,
                           group_commit_messages = JArr []\<rparr>)],
        grouped')"
  by (simp add: process_group_def dict_get_def read_commit_messages_def emoji_for_def
      type_emoji_def unique_name_loop.simps dict_contains_def suffixed_def
      string_of_nat_digits Let_def)


lemma same_name_loop:
  "\<exists>grouped_files. groups_loop [''a.py'', ''b.py'', ''c.py'']
     [JObj [(''group'', JStr ''x''), (''files'', JArr [JStr ''a.py''])],
      JObj [(''group'', JStr ''x''), (''files'', JArr [JStr ''b.py''])],
      JObj [(''group'', JStr ''x''), (''files'', JArr [JStr ''c.py''])]] ([], {}) =
   Inr ([(JStr ''x'', \<lparr>group_files = [''a.py''], group_description = JStr '''',
                         group_type = JStr ''chore'', group_emoji = Wrench,
                         group_commit_messages = JArr []\<rparr>),
         (JStr ''x-1'', \<lparr>group_files = [''b.py''], group_description = JStr '''',
                           group_type = JStr ''chore'', group_emoji = Wrench,
                           group_commit_messages = JArr []\<rparr>),
         (JStr ''x-2'', \<lparr>group_files = [''c.py''], group_description = JStr '''',
                           group_type = JStr ''chore'', group_emoji = Wrench,
                           group_commit_messages = JArr []\<rparr>)],
        grouped_files)"
  by (simp add: process_group_def dict_get_def read_commit_messages_def emoji_for_def
      type_emoji_def unique_name_loop.simps dict_contains_def suffixed_def
      string_of_nat_digits Let_def)

theorem parse_relation_groups_unique_names_witness:
  "(\<exists>grouped'. process_group [''a.py'', ''b.py'', ''c.py'']
     (JObj [(''group'', JStr ''x''), (''files'', JArr [JStr ''c.py''])])
     ([(JStr ''x'', \<lparr>group_files = [''a.py''], group_description = JStr '''',
                      group_type = JStr ''chore'', group_emoji = Wrench,
                      group_commit_messages = JArr []\<rparr>),
       (JStr ''x-1'', \<lparr>group_files = [''b.py''], group_description = JStr '''',
                        group_type = JStr ''chore'', group_emoji = Wrench,
                        group_commit_messages = JArr []\<rparr>)],
      {''a.py'', ''b.py''}) =
   Inr ([(JStr ''x'', \<lparr>group_files = [''a.py''], group_description = JStr '''',
                         group_type = JStr ''chore'', group_emoji = Wrench,
                         group_commit_messages = JArr []\<rparr>),
         (JStr ''x-1'', \<lparr>group_files = [''b.py''], group_description = JStr '''',
                           group_type = JStr ''chore'', group_emoji = Wrench,
                           group_commit_messages = JArr []\<rparr>),
         (JStr ''x-2'', \<lparr>group_files = [''c.py''], group_description = JStr '''',
                           group_type = JStr ''chore'', group_emoji = Wrench,
                           group_commit_messages = JArr []\<rparr>)],
        grouped')) \<and>
   JStr ''x-2'' = suffixed (JStr ''x'') 2 \<and>
   (\<exists>r. parse_relation_groups
          (\<lambda>s. Some (JArr [JObj [(''group'', JStr ''x''), (''files'', JArr [JStr ''a.py''])],
                            JObj [(''group'', JStr ''x''), (''files'', JArr [JStr ''b.py''])],
                            JObj [(''group'', JStr ''x''), (''files'', JArr [JStr ''c.py''])]]))
          [] [''a.py'', ''b.py'', ''c.py''] = Inr r \<and>
        take 3 (map fst r) = [JStr ''x'', JStr ''x-1'', JStr ''x-2''] \<and>
        keys_unique r \<and> distinct (map fst r))"
proof -
  let ?items = "[JObj [(''group'', JStr ''x''), (''files'', JArr [JStr ''a.py''])],
                 JObj [(''group'', JStr ''x''), (''files'', JArr [JStr ''b.py''])],
                 JObj [(''group'', JStr ''x''), (''files'', JArr [JStr ''c.py''])]]"
  let ?jl = "\<lambda>s::string. Some (JArr ?items)"
  let ?F = "[''a.py'', ''b.py'', ''c.py'']"
  from same_name_loop obtain grouped_files where
    loop: "groups_loop ?F ?items ([], {}) =
       Inr ([(JStr ''x'', \<lparr>group_files = [''a.py''], group_description = JStr '''',
                         group_type = JStr ''chore'', group_emoji = Wrench,
                         group_commit_messages = JArr []\<rparr>),
         (JStr ''x-1'', \<lparr>group_files = [''b.py''], group_description = JStr '''',
                           group_type = JStr ''chore'', group_emoji = Wrench,
                           group_commit_messages = JArr []\<rparr>),
         (JStr ''x-2'', \<lparr>group_files = [''c.py''], group_description = JStr '''',
                           group_type = JStr ''chore'', group_emoji = Wrench,
                           group_commit_messages = JArr []\<rparr>)], grouped_files)"
    by blast
  have named: "\<forall>item\<in>set ?items. \<exists>gd. item = JObj gd \<and>
        dict_get gd ''group'' (JStr ''unknown'') = JStr ''x''"
    by (simp add: dict_get_def)
  have ups: "[0..<3] = [0, Suc 0, Suc (Suc 0)]" by (simp add: upt_rec)
  have "\<exists>r. parse_relation_groups ?jl [] ?F = Inr r \<and>
         take (length ?items) (map fst r) =
           map (\<lambda>i. if i = 0 then JStr ''x'' else JStr (''x'' @ ''-'' @ string_of_nat i))
             [0..<length ?items]"
    by (rule parse_relation_groups_unique_names
          [where json_loads = "?jl" and ai_response = "[]" and all_files = ?F
             and items = ?items and x = "''x''",
           THEN conjunct2, THEN conjunct1, rule_format])
       (intro conjI, rule refl, rule loop, simp, rule named)
  then obtain r where r: "parse_relation_groups ?jl [] ?F = Inr r"
    and names: "take 3 (map fst r) = [JStr ''x'', JStr ''x-1'', JStr ''x-2'']"
    by (auto simp: ups string_of_nat_digits numeral_3_eq_3)
  from parse_relation_groups_unique_names
      [where json_loads = "?jl" and ai_response = "[]" and all_files = ?F and r = r,
       THEN conjunct2, THEN conjunct2, rule_format, OF r]
  have "keys_unique r \<and> distinct (map fst r)" .
  with r names have last: "\<exists>r. parse_relation_groups ?jl [] ?F = Inr r \<and>
        take 3 (map fst r) = [JStr ''x'', JStr ''x-1'', JStr ''x-2''] \<and>
        keys_unique r \<and> distinct (map fst r)"
    by blast
  have "JStr ''x-2'' = suffixed (JStr ''x'') 2"
    by (simp add: suffixed_def string_of_nat_digits)
  with same_name_round last show ?thesis by blast
qed

section \<open>The groups and the files\<close>




















end
